theory Spec2Isabelle
  imports Complex_Main "HOL-Library.Product_Lexorder"
begin

section \<open>Exceptions\<close>

text \<open>
  The exceptions that the modelled code can raise.  Python exceptions carry their class and
  the constant part of their message; database errors are the classes of
  \<^verbatim>\<open>psycopg.errors\<close> that PostgreSQL reports for the statements of
  \<^verbatim>\<open>app/main.py\<close>, and \<^verbatim>\<open>psycopg.DataError\<close>, which the driver raises itself for
  a text with a NUL character.  No handler of \<^verbatim>\<open>app/main.py\<close> defines an exception of
  its own.
\<close>

datatype exn =
    ValueError string
  | OverflowError string
  | RuntimeError string
  | KeyError
  | DataError
  | InvalidDatetimeFormat
  | NumericValueOutOfRange
  | CheckViolation
  | UniqueViolation
  | ForeignKeyViolation

section \<open>The calendar arithmetic behind \<^verbatim>\<open>datetime.date\<close>\<close>

text \<open>
  \<^verbatim>\<open>iso_week_dates\<close> is three lines over \<^verbatim>\<open>date.fromisocalendar\<close> and
  \<^verbatim>\<open>date + timedelta\<close>.  Both are embedded here after the reference implementation of
  the standard library (\<^verbatim>\<open>Lib/_pydatetime.py\<close>), function by function and under its
  names without the leading underscore.  Python integers are unbounded and \<open>//\<close>, \<open>%\<close>
  round towards minus infinity, as \<open>div\<close> and \<open>mod\<close> on \<open>int\<close> do.
\<close>

definition MINYEAR :: int where "MINYEAR = 1"
definition MAXYEAR :: int where "MAXYEAR = 9999"

text \<open>\<^verbatim>\<open>_MAXORDINAL = 3652059\<close>, the ordinal of 9999-12-31.\<close>
definition MAXORDINAL :: int where "MAXORDINAL = 3652059"

text \<open>Index 0 holds the placeholder \<open>-1\<close>, as in the source.\<close>
definition DAYS_IN_MONTH :: "int list" where
  "DAYS_IN_MONTH = [-1, 31, 28, 31, 30, 31, 30, 31, 31, 30, 31, 30, 31]"

definition DAYS_BEFORE_MONTH :: "int list" where
  "DAYS_BEFORE_MONTH = [-1, 0, 31, 59, 90, 120, 151, 181, 212, 243, 273, 304, 334]"

definition is_leap :: "int \<Rightarrow> bool" where
  "is_leap year \<longleftrightarrow> year mod 4 = 0 \<and> (year mod 100 \<noteq> 0 \<or> year mod 400 = 0)"

definition days_before_year :: "int \<Rightarrow> int" where
  "days_before_year year = (let y = year - 1 in y * 365 + y div 4 - y div 100 + y div 400)"

text \<open>Called with \<open>1 \<le> month \<le> 12\<close> only (an assertion in the source).\<close>
definition days_in_month :: "int \<Rightarrow> int \<Rightarrow> int" where
  "days_in_month year month =
     (if month = 2 \<and> is_leap year then 29 else DAYS_IN_MONTH ! nat month)"

definition days_before_month :: "int \<Rightarrow> int \<Rightarrow> int" where
  "days_before_month year month =
     DAYS_BEFORE_MONTH ! nat month + (if month > 2 \<and> is_leap year then 1 else 0)"

definition ymd2ord :: "int \<Rightarrow> int \<Rightarrow> int \<Rightarrow> int" where
  "ymd2ord year month day = days_before_year year + days_before_month year month + day"

definition DI400Y :: int where "DI400Y = 146097"
definition DI100Y :: int where "DI100Y = 36524"
definition DI4Y :: int where "DI4Y = 1461"

text \<open>
  \<^verbatim>\<open>_ord2ymd\<close>: the shift \<open>(n + 50) >> 5\<close> is \<open>(n + 50) div 32\<close>.  The three assertions of
  the source are not branches of the model; \<open>ord2ymd_spec\<close> below proves what they guard (the result
  is a date of the calendar, and the one with the given ordinal).
\<close>
definition ord2ymd :: "int \<Rightarrow> int \<times> int \<times> int" where
  "ord2ymd n0 =
     (let n = n0 - 1;
          n400 = n div DI400Y; n = n mod DI400Y;
          year = n400 * 400 + 1;
          n100 = n div DI100Y; n = n mod DI100Y;
          n4 = n div DI4Y; n = n mod DI4Y;
          n1 = n div 365; n = n mod 365;
          year = year + (n100 * 100 + n4 * 4 + n1)
      in if n1 = 4 \<or> n100 = 4 then (year - 1, 12, 31)
         else
           let leapyear = (n1 = 3 \<and> (n4 \<noteq> 24 \<or> n100 = 3));
               month = (n + 50) div 32;
               preceding = DAYS_BEFORE_MONTH ! nat month
                           + (if month > 2 \<and> leapyear then 1 else 0)
           in if preceding > n
              then let month' = month - 1;
                       preceding' = preceding - (DAYS_IN_MONTH ! nat month'
                                      + (if month' = 2 \<and> leapyear then 1 else 0))
                   in (year, month', n - preceding' + 1)
              else (year, month, n - preceding + 1))"

text \<open>The day number of the Monday that starts ISO week 1 (\<^verbatim>\<open>THURSDAY = 3\<close>).\<close>
definition isoweek1monday :: "int \<Rightarrow> int" where
  "isoweek1monday year =
     (let firstday = ymd2ord year 1 1;
          firstweekday = (firstday + 6) mod 7;
          week1monday = firstday - firstweekday
      in if firstweekday > 3 then week1monday + 7 else week1monday)"

text \<open>
  \<^verbatim>\<open>_isoweek_to_gregorian\<close>.  Note that here the first weekday is the ordinal modulo 7,
  so that 4 is a Thursday and 3 a Wednesday.
\<close>
definition isoweek_to_gregorian :: "int \<Rightarrow> int \<Rightarrow> int \<Rightarrow> exn + int \<times> int \<times> int" where
  "isoweek_to_gregorian year week day =
     (if \<not> (MINYEAR \<le> year \<and> year \<le> MAXYEAR) then Inl (ValueError ''Year is out of range'')
      else if \<not> (0 < week \<and> week < 53) \<and>
              \<not> (week = 53 \<and>
                 (let first_weekday = ymd2ord year 1 1 mod 7
                  in first_weekday = 4 \<or> (first_weekday = 3 \<and> is_leap year)))
      then Inl (ValueError ''Invalid week'')
      else if \<not> (0 < day \<and> day < 8) then Inl (ValueError ''Invalid weekday'')
      else
        let day_offset = (week - 1) * 7 + (day - 1);
            day_1 = isoweek1monday year;
            ord_day = day_1 + day_offset
        in Inr (ord2ymd ord_day))"

text \<open>A \<^verbatim>\<open>date\<close> object: its three fields.\<close>
record date =
  d_year :: int
  d_month :: int
  d_day :: int

text \<open>The constructor \<^verbatim>\<open>date(year, month, day)\<close> with \<^verbatim>\<open>_check_date_fields\<close>.\<close>
definition date_new :: "int \<Rightarrow> int \<Rightarrow> int \<Rightarrow> exn + date" where
  "date_new year month day =
     (if \<not> (MINYEAR \<le> year \<and> year \<le> MAXYEAR) then Inl (ValueError ''year must be in 1..9999'')
      else if \<not> (1 \<le> month \<and> month \<le> 12) then Inl (ValueError ''month must be in 1..12'')
      else if \<not> (1 \<le> day \<and> day \<le> days_in_month year month)
      then Inl (ValueError ''day is out of range for month'')
      else Inr \<lparr>d_year = year, d_month = month, d_day = day\<rparr>)"

definition fromisocalendar :: "int \<Rightarrow> int \<Rightarrow> int \<Rightarrow> exn + date" where
  "fromisocalendar year week day =
     (case isoweek_to_gregorian year week day of
        Inl e \<Rightarrow> Inl e
      | Inr (y, m, d) \<Rightarrow> date_new y m d)"

definition toordinal :: "date \<Rightarrow> int" where
  "toordinal d = ymd2ord (d_year d) (d_month d) (d_day d)"

definition fromordinal :: "int \<Rightarrow> exn + date" where
  "fromordinal n = (case ord2ymd n of (y, m, d) \<Rightarrow> date_new y m d)"

text \<open>\<^verbatim>\<open>date.weekday()\<close>: Monday is 0, Sunday is 6.\<close>
definition weekday :: "date \<Rightarrow> int" where
  "weekday d = (toordinal d + 6) mod 7"

text \<open>
  \<^verbatim>\<open>date.__add__\<close> for a \<^verbatim>\<open>timedelta(days=i)\<close>, of which only the number of days
  matters.
\<close>
definition date_add :: "date \<Rightarrow> int \<Rightarrow> exn + date" where
  "date_add d days =
     (let o' = toordinal d + days
      in if 0 < o' \<and> o' \<le> MAXORDINAL then fromordinal o'
         else Inl (OverflowError ''result out of range''))"

text \<open>
  Comparison of dates, \<^verbatim>\<open>date.__le__\<close>: the tuples \<open>(year, month, day)\<close> are compared
  lexicographically.
\<close>
definition date_le :: "date \<Rightarrow> date \<Rightarrow> bool" where
  "date_le a b \<longleftrightarrow> (d_year a, d_month a, d_day a) \<le> (d_year b, d_month b, d_day b)"

section \<open>The week calculator of \<^verbatim>\<open>app/main.py\<close>\<close>

text \<open>
  A list comprehension evaluates its elements from left to right and stops at the first
  exception.
\<close>
fun collect :: "(exn + 'a) list \<Rightarrow> exn + 'a list" where
  "collect [] = Inr []"
| "collect (x # xs) =
     (case x of
        Inl e \<Rightarrow> Inl e
      | Inr v \<Rightarrow> (case collect xs of Inl e \<Rightarrow> Inl e | Inr vs \<Rightarrow> Inr (v # vs)))"

definition iso_week_dates :: "int \<Rightarrow> int \<Rightarrow> exn + date list" where
  "iso_week_dates year week =
     (case fromisocalendar year week 1 of
        Inl e \<Rightarrow> Inl e
      | Inr monday \<Rightarrow> collect (map (\<lambda>i. date_add monday i) [0, 1, 2, 3, 4, 5, 6]))"

section \<open>Numbers: Python floats and the decimals of the database\<close>

text \<open>
  A Python \<^verbatim>\<open>float\<close> is an IEEE 754 double: a rational of the form \<open>m * 2\<^sup>e\<close>, an
  infinity, or NaN.  The two zeros are one value here; Python compares them equal.
\<close>
datatype py_float = Finite rat | Infinity | NegInfinity | NaN

text \<open>
  \<open>ilog b n\<close> is \<open>\<lfloor>log\<^sub>b n\<rfloor>\<close> for \<open>n \<ge> 1\<close>, and \<open>floor_log b x\<close> is
  \<open>\<lfloor>log\<^sub>b \<bar>x\<bar>\<rfloor>\<close> for a rational \<open>x \<noteq> 0\<close>: the exponent of the leading digit of
  \<open>x\<close> in base \<open>b\<close>.
\<close>
function ilog :: "int \<Rightarrow> int \<Rightarrow> int" where
  "ilog b n = (if b < 2 \<or> n < b then 0 else ilog b (n div b) + 1)"
  by pat_completeness auto
termination
  by (relation "measure (\<lambda>(b, n). nat n)") (auto intro: int_div_less_self)

declare ilog.simps [simp del]

definition floor_log :: "int \<Rightarrow> rat \<Rightarrow> int" where
  "floor_log b x =
     (if 1 \<le> \<bar>x\<bar> then ilog b \<lfloor>\<bar>x\<bar>\<rfloor> else - (ilog b (\<lceil>1 / \<bar>x\<bar>\<rceil> - 1) + 1))"

text \<open>Rounding to the nearest integer, a tie to the even one, and to the nearest multiple
  of \<open>q\<close>.\<close>
definition round_half_even :: "rat \<Rightarrow> int" where
  "round_half_even x =
     (let f = \<lfloor>x\<rfloor>; d = x - of_int f
      in if d < 1 / 2 then f else if 1 / 2 < d then f + 1 else if even f then f else f + 1)"

definition round_to :: "rat \<Rightarrow> rat \<Rightarrow> rat" where
  "round_to q x = of_int (round_half_even (x / q)) * q"

text \<open>
  The double nearest to a rational, a tie going to the even mantissa: the result of
  \<^verbatim>\<open>float(...)\<close> on a decimal and of every arithmetic operation on doubles.  A mantissa
  has 53 bits; below \<open>2\<^sup>-\<^sup>1\<^sup>0\<^sup>2\<^sup>2\<close> the doubles keep the spacing \<open>2\<^sup>-\<^sup>1\<^sup>0\<^sup>7\<^sup>4\<close>; a result
  that would be \<open>2\<^sup>1\<^sup>0\<^sup>2\<^sup>4\<close> or more is an infinity.
\<close>
definition round_double :: "rat \<Rightarrow> py_float" where
  "round_double x =
     (if x = 0 then Finite 0
      else let e = max (floor_log 2 x) (- 1022);
               r = round_to (2 powi (e - 52)) x
           in if 2 ^ 1024 \<le> \<bar>r\<bar> then (if 0 < x then Infinity else NegInfinity)
              else Finite r)"

text \<open>\<^verbatim>\<open>a + b\<close> on floats.\<close>
definition float_add :: "py_float \<Rightarrow> py_float \<Rightarrow> py_float" where
  "float_add a b =
     (case a of
        Finite x \<Rightarrow> (case b of Finite y \<Rightarrow> round_double (x + y) | _ \<Rightarrow> b)
      | Infinity \<Rightarrow> (case b of NegInfinity \<Rightarrow> NaN | NaN \<Rightarrow> NaN | _ \<Rightarrow> Infinity)
      | NegInfinity \<Rightarrow> (case b of Infinity \<Rightarrow> NaN | NaN \<Rightarrow> NaN | _ \<Rightarrow> NegInfinity)
      | NaN \<Rightarrow> NaN)"

text \<open>
  A value of a \<^verbatim>\<open>NUMERIC\<close> column, which \<^verbatim>\<open>psycopg\<close> hands over as a
  \<^verbatim>\<open>Decimal\<close>: an exact decimal or NaN.  (A column with a precision, like
  \<^verbatim>\<open>NUMERIC(5,2)\<close>, holds no infinity.)
\<close>
datatype numeric = Num rat | NumNaN

section \<open>The database\<close>

text \<open>
  The three tables that \<^verbatim>\<open>ensure_v2_schema\<close> creates, as lists of rows.  The column
  \<^verbatim>\<open>created_at\<close> (a wall-clock timestamp) is left out.  A \<^verbatim>\<open>DATE\<close> is a day
  number: PostgreSQL stores one, and \<^verbatim>\<open>psycopg\<close> converts a Python date with
  \<^verbatim>\<open>toordinal\<close>; the special dates \<^verbatim>\<open>infinity\<close> and \<^verbatim>\<open>-infinity\<close> are not
  modelled.  The column \<^verbatim>\<open>status\<close> is \<^verbatim>\<open>TEXT\<close>, any string.
\<close>

record person =
  p_id :: int
  p_name :: string
  p_email :: "string option"

record project =
  pr_id :: int
  pr_code :: "string option"
  pr_name :: string
  pr_is_active :: bool

record time_entry =
  te_id :: int
  te_person_id :: int
  te_project_id :: "int option"
  te_work_date :: int
  te_hours :: numeric
  te_notes :: "string option"
  te_status :: string

text \<open>
  The state of the database; \<open>v2_time_entries_id_seq\<close> is the last value handed out by
  the sequence behind \<^verbatim>\<open>id BIGSERIAL\<close>.
\<close>
record db =
  v2_people :: "person list"
  v2_projects :: "project list"
  v2_time_entries :: "time_entry list"
  v2_time_entries_id_seq :: int

text \<open>\<^verbatim>\<open>UPDATE t SET ... WHERE cond\<close>, \<^verbatim>\<open>DELETE FROM t WHERE cond\<close> and
  \<^verbatim>\<open>SELECT ... FROM t WHERE cond\<close> on a table.\<close>
definition sql_update :: "('r \<Rightarrow> bool) \<Rightarrow> ('r \<Rightarrow> 'r) \<Rightarrow> 'r list \<Rightarrow> 'r list" where
  "sql_update cond set_cols rows = map (\<lambda>r. if cond r then set_cols r else r) rows"

definition sql_delete :: "('r \<Rightarrow> bool) \<Rightarrow> 'r list \<Rightarrow> 'r list" where
  "sql_delete cond rows = filter (\<lambda>r. \<not> cond r) rows"

definition sql_select :: "('r \<Rightarrow> bool) \<Rightarrow> 'r list \<Rightarrow> 'r list" where
  "sql_select cond rows = filter cond rows"

text \<open>
  The state after \<^verbatim>\<open>ensure_v2_schema\<close> has run on an empty database: the seeded
  project and person, no time entry.
\<close>
definition ensure_v2_schema :: db where
  "ensure_v2_schema =
     \<lparr>v2_people = [\<lparr>p_id = 1, p_name = ''Ada Lovelace'', p_email = Some ''ada@example.com''\<rparr>],
      v2_projects = [\<lparr>pr_id = 1, pr_code = Some ''INT'', pr_name = ''Internal'',
                      pr_is_active = True\<rparr>],
      v2_time_entries = [],
      v2_time_entries_id_seq = 0\<rparr>"

section \<open>The handlers of \<^verbatim>\<open>app/main.py\<close>\<close>

text \<open>
  A handler that writes returns the exception it raised, if any, and the database it
  leaves.  Each handler runs in one transaction, which an exception rolls back; failures of
  \<^verbatim>\<open>connect()\<close> are outside the model.
\<close>

text \<open>
  The cast of a finite \<^verbatim>\<open>float8\<close> to \<^verbatim>\<open>numeric\<close>: the database prints the double
  with 15 significant digits (\<^verbatim>\<open>%.15g\<close>, the exact value rounded, a tie to the even
  digit) and reads the digits as a decimal.
\<close>
definition float8_numeric :: "rat \<Rightarrow> rat" where
  "float8_numeric x = (if x = 0 then 0 else round_to (10 powi (floor_log 10 x - 14)) x)"

text \<open>
  Assignment of a decimal to a \<^verbatim>\<open>NUMERIC(5,2)\<close> column: it is rounded to two decimals,
  half away from zero, and must then be below \<open>10\<^sup>3\<close> in absolute value.
\<close>
definition numeric_5_2 :: "rat \<Rightarrow> exn + rat" where
  "numeric_5_2 x =
     (let r = (if 0 \<le> x then of_int \<lfloor>x * 100 + 1 / 2\<rfloor> / 100
               else - (of_int \<lfloor>- x * 100 + 1 / 2\<rfloor> / 100))
      in if 1000 \<le> \<bar>r\<bar> then Inl NumericValueOutOfRange else Inr r)"

text \<open>
  The parameter \<^verbatim>\<open>hours\<close>, a \<^verbatim>\<open>float\<close> that the driver sends as \<^verbatim>\<open>float8\<close>, on
  its way into the column \<^verbatim>\<open>hours NUMERIC(5,2)\<close>.  NaN stays NaN; an infinity is
  refused (by PostgreSQL 14 and later as a numeric field overflow).
\<close>
definition hours_in :: "py_float \<Rightarrow> exn + numeric" where
  "hours_in hours =
     (case hours of
        Finite x \<Rightarrow> (case numeric_5_2 (float8_numeric x) of
                       Inl e \<Rightarrow> Inl e
                     | Inr r \<Rightarrow> Inr (Num r))
      | NaN \<Rightarrow> Inr NumNaN
      | _ \<Rightarrow> Inl NumericValueOutOfRange)"

text \<open>
  \<^verbatim>\<open>CHECK (hours >= 0)\<close>.  For the database NaN is larger than every number.
\<close>
definition hours_check :: "numeric \<Rightarrow> bool" where
  "hours_check h = (case h of Num r \<Rightarrow> 0 \<le> r | NumNaN \<Rightarrow> True)"

text \<open>The range of \<^verbatim>\<open>BIGINT\<close>.\<close>
definition int8 :: "int \<Rightarrow> bool" where
  "int8 n \<longleftrightarrow> - (2 ^ 63) \<le> n \<and> n < 2 ^ 63"

text \<open>
  \<^verbatim>\<open>POST /time/add\<close>.  The text of \<^verbatim>\<open>work_date\<close> is read by the date input routine
  of the database, whose reading depends on the \<^verbatim>\<open>DateStyle\<close> of the session; the
  model takes the outcome for \<open>work_date\<close>: the day number read, or the exception raised.
  The failures are those of the driver and of the table definition, in the order in which
  they arise:
  \<^item> the driver refuses a text with a NUL character before it sends anything;
  \<^item> the database reads the parameters when it binds them (the date), and converts them
    to the column types when it plans the statement (an \<^verbatim>\<open>int\<close> beyond
    \<^verbatim>\<open>BIGINT\<close>, which the driver sends as \<^verbatim>\<open>numeric\<close>, and the hours);
  \<^item> executing the statement draws the id from the sequence, which does not give it back,
    then checks the \<^verbatim>\<open>CHECK\<close> constraint on the stored hours, the primary key, and
    the two foreign keys.
\<close>
definition time_add ::
  "int \<Rightarrow> exn + int \<Rightarrow> int option \<Rightarrow> py_float \<Rightarrow> string option \<Rightarrow> db
     \<Rightarrow> exn option \<times> db" where
  "time_add person_id work_date project_id hours notes s =
     (if (case notes of None \<Rightarrow> False | Some t \<Rightarrow> CHR 0x00 \<in> set t)
      then (Some DataError, s)
      else
        (case work_date of
           Inl e \<Rightarrow> (Some e, s)
         | Inr wd \<Rightarrow>
             if \<not> int8 person_id \<or> (case project_id of None \<Rightarrow> False | Some p \<Rightarrow> \<not> int8 p)
             then (Some NumericValueOutOfRange, s)
             else
               (case hours_in hours of
                  Inl e \<Rightarrow> (Some e, s)
                | Inr h \<Rightarrow>
                    let new_id = v2_time_entries_id_seq s + 1;
                        s1 = s\<lparr>v2_time_entries_id_seq := new_id\<rparr>
                    in if \<not> hours_check h then (Some CheckViolation, s1)
                       else if new_id \<in> set (map te_id (v2_time_entries s))
                       then (Some UniqueViolation, s1)
                       else if person_id \<notin> set (map p_id (v2_people s))
                       then (Some ForeignKeyViolation, s1)
                       else if (case project_id of
                                  None \<Rightarrow> False
                                | Some p \<Rightarrow> p \<notin> set (map pr_id (v2_projects s)))
                       then (Some ForeignKeyViolation, s1)
                       else (None,
                             s1\<lparr>v2_time_entries := v2_time_entries s @
                                  [\<lparr>te_id = new_id, te_person_id = person_id,
                                    te_project_id = project_id, te_work_date = wd,
                                    te_hours = h, te_notes = notes,
                                    te_status = ''draft''\<rparr>]\<rparr>))))"

text \<open>\<^verbatim>\<open>POST /time/delete/{entry_id}\<close>\<close>
definition time_delete :: "int \<Rightarrow> db \<Rightarrow> exn option \<times> db" where
  "time_delete entry_id s =
     (None, s\<lparr>v2_time_entries := sql_delete (\<lambda>r. te_id r = entry_id) (v2_time_entries s)\<rparr>)"

text \<open>
  \<^verbatim>\<open>POST /time/submit-week\<close>.  \<open>days[0]\<close> and \<open>days[-1]\<close> are \<open>hd\<close> and \<open>last\<close>: the
  list has seven elements whenever \<^verbatim>\<open>iso_week_dates\<close> returns
  (\<open>iso_week_dates_Inr\<close> below).
\<close>
definition time_submit_week :: "int \<Rightarrow> int \<Rightarrow> int \<Rightarrow> db \<Rightarrow> exn option \<times> db" where
  "time_submit_week person_id year week s =
     (case iso_week_dates year week of
        Inl e \<Rightarrow> (Some e, s)
      | Inr days \<Rightarrow>
          let start = toordinal (hd days); end' = toordinal (last days)
          in (None,
              s\<lparr>v2_time_entries :=
                  sql_update
                    (\<lambda>r. te_person_id r = person_id \<and> start \<le> te_work_date r
                         \<and> te_work_date r \<le> end' \<and> te_status r = ''draft'')
                    (\<lambda>r. r\<lparr>te_status := ''submitted''\<rparr>)
                    (v2_time_entries s)\<rparr>))"

text \<open>\<^verbatim>\<open>POST /approvals/approve/{entry_id}\<close>\<close>
definition approvals_approve :: "int \<Rightarrow> db \<Rightarrow> exn option \<times> db" where
  "approvals_approve entry_id s =
     (None,
      s\<lparr>v2_time_entries :=
          sql_update (\<lambda>r. te_id r = entry_id) (\<lambda>r. r\<lparr>te_status := ''approved''\<rparr>)
            (v2_time_entries s)\<rparr>)"

text \<open>\<^verbatim>\<open>POST /approvals/reject/{entry_id}\<close>\<close>
definition approvals_reject :: "int \<Rightarrow> db \<Rightarrow> exn option \<times> db" where
  "approvals_reject entry_id s =
     (None,
      s\<lparr>v2_time_entries :=
          sql_update (\<lambda>r. te_id r = entry_id) (\<lambda>r. r\<lparr>te_status := ''draft''\<rparr>)
            (v2_time_entries s)\<rparr>)"

text \<open>\<^verbatim>\<open>SELECT id FROM v2_people ORDER BY id LIMIT 1\<close>, then \<^verbatim>\<open>fetchone\<close>.\<close>
definition pick_default_person_id :: "db \<Rightarrow> exn + int" where
  "pick_default_person_id s =
     (case sort (map p_id (v2_people s)) of
        [] \<Rightarrow> Inl (RuntimeError ''No v2_people in DB'')
      | row # _ \<Rightarrow> Inr row)"

text \<open>
  \<^verbatim>\<open>GET /my-week\<close>.  Python's \<^verbatim>\<open>not x\<close> holds of a missing parameter and of 0, and
  \<^verbatim>\<open>x or y\<close> is \<open>y\<close> for such an \<open>x\<close>.
\<close>
definition falsy :: "int option \<Rightarrow> bool" where
  "falsy x \<longleftrightarrow> x = None \<or> x = Some 0"

definition py_or :: "int option \<Rightarrow> int \<Rightarrow> int" where
  "py_or x y = (case x of None \<Rightarrow> y | Some v \<Rightarrow> if v = 0 then y else v)"

text \<open>
  \<^verbatim>\<open>fetchall\<close> hands each \<^verbatim>\<open>work_date\<close> over as a Python date, built from the day
  number; a day number outside the range of \<^verbatim>\<open>date\<close> makes it fail.
\<close>
definition load_rows :: "time_entry list \<Rightarrow> exn + (date \<times> time_entry) list" where
  "load_rows rows =
     collect (map (\<lambda>r. case fromordinal (te_work_date r) of
                          Inl e \<Rightarrow> Inl e
                        | Inr d \<Rightarrow> Inr (d, r)) rows)"

text \<open>
  \<^verbatim>\<open>float(r["hours"] or 0)\<close>: a decimal zero counts as false and gives the integer 0;
  \<^verbatim>\<open>float\<close> of a decimal is the nearest double, of the decimal NaN the float NaN.
\<close>
definition float_of_hours :: "numeric \<Rightarrow> py_float" where
  "float_of_hours h =
     (case h of
        Num x \<Rightarrow> if x = 0 then Finite 0 else round_double x
      | NumNaN \<Rightarrow> NaN)"

text \<open>
  The loop over the rows: \<^verbatim>\<open>by_day[r["work_date"]].append(r)\<close> raises
  \<^verbatim>\<open>KeyError\<close> on a date that is not a key, and \<open>total_hours\<close> (\<^verbatim>\<open>total\<close> in the
  source) adds up the hours as floats, row after row.
\<close>
fun group_rows ::
  "(date \<rightharpoonup> time_entry list) \<Rightarrow> py_float \<Rightarrow> (date \<times> time_entry) list
     \<Rightarrow> exn + (date \<rightharpoonup> time_entry list) \<times> py_float" where
  "group_rows by_day total_hours [] = Inr (by_day, total_hours)"
| "group_rows by_day total_hours ((d, r) # rows) =
     (case by_day d of
        None \<Rightarrow> Inl KeyError
      | Some l \<Rightarrow> group_rows (by_day(d \<mapsto> l @ [r]))
                   (float_add total_hours (float_of_hours (te_hours r))) rows)"

text \<open>
  The aggregates \<^verbatim>\<open>BOOL_AND\<close> and \<^verbatim>\<open>BOOL_OR\<close> are \<^verbatim>\<open>NULL\<close> over no rows;
  \<^verbatim>\<open>COALESCE\<close> replaces \<^verbatim>\<open>NULL\<close>.
\<close>
definition BOOL_AND :: "bool list \<Rightarrow> bool option" where
  "BOOL_AND bs = (if bs = [] then None else Some (list_all (\<lambda>b. b) bs))"

definition BOOL_OR :: "bool list \<Rightarrow> bool option" where
  "BOOL_OR bs = (if bs = [] then None else Some (list_ex (\<lambda>b. b) bs))"

definition COALESCE :: "'a option \<Rightarrow> 'a \<Rightarrow> 'a" where
  "COALESCE x y = (case x of None \<Rightarrow> y | Some v \<Rightarrow> v)"

text \<open>
  The template context (without the request and the pick-lists \<^verbatim>\<open>people\<close> and
  \<^verbatim>\<open>projects\<close>, which play no part in the summary).
\<close>
record week_ctx =
  ctx_year :: int
  ctx_week :: int
  ctx_days :: "date list"
  ctx_by_day :: "date \<rightharpoonup> time_entry list"
  ctx_person_id :: int
  ctx_total_hours :: py_float
  ctx_status_hint :: string

text \<open>
  \<open>today\<close> is the ISO year and week of \<^verbatim>\<open>date.today()\<close>.  The handler catches every
  exception and answers it with the error page of \<^verbatim>\<open>html_error\<close> (status 500): that
  answer is \<open>Inl\<close> of the exception, the rendered week is \<open>Inr\<close> of its context.
\<close>
definition my_week ::
  "int \<times> int \<Rightarrow> int option \<Rightarrow> int option \<Rightarrow> int option \<Rightarrow> db \<Rightarrow> exn + week_ctx" where
  "my_week today year week person_id s =
     (let (y, w) = today;
          (year1, week1) = (if falsy year \<or> falsy week then (py_or year y, py_or week w)
                            else (the year, the week))
      in case (if falsy person_id then pick_default_person_id s else Inr (the person_id)) of
           Inl e \<Rightarrow> Inl e
         | Inr person_id1 \<Rightarrow>
             (case iso_week_dates year1 week1 of
                Inl e \<Rightarrow> Inl e
              | Inr days \<Rightarrow>
                  let start = toordinal (hd days); end' = toordinal (last days);
                      in_range = sql_select
                        (\<lambda>r. te_person_id r = person_id1 \<and> start \<le> te_work_date r
                             \<and> te_work_date r \<le> end') (v2_time_entries s)
                  in (case load_rows (sort_key (\<lambda>r. (te_work_date r, te_id r)) in_range) of
                       Inl e \<Rightarrow> Inl e
                     | Inr rows \<Rightarrow>
                         (case group_rows (map_of (map (\<lambda>d. (d, [])) days)) (Finite 0) rows of
                            Inl e \<Rightarrow> Inl e
                          | Inr (by_day, total_hours) \<Rightarrow>
                              let all_approved = COALESCE (BOOL_AND
                                    (map (\<lambda>r. te_status r = ''approved'') in_range)) False;
                                  any_submitted = COALESCE (BOOL_OR
                                    (map (\<lambda>r. te_status r = ''submitted'') in_range)) False
                              in Inr \<lparr>ctx_year = year1, ctx_week = week1, ctx_days = days,
                                      ctx_by_day = by_day, ctx_person_id = person_id1,
                                      ctx_total_hours = total_hours,
                                      ctx_status_hint =
                                        (if all_approved then ''approved''
                                         else if any_submitted then ''submitted''
                                         else ''draft'')\<rparr>))))"

text \<open>
  The states that the workflow handlers reach from a freshly created schema, with any
  arguments.
\<close>
inductive reachable :: "db \<Rightarrow> bool" where
  reach_init: "reachable ensure_v2_schema"
| reach_add: "reachable s \<Longrightarrow>
     reachable (snd (time_add person_id work_date project_id hours notes s))"
| reach_delete: "reachable s \<Longrightarrow> reachable (snd (time_delete entry_id s))"
| reach_submit: "reachable s \<Longrightarrow> reachable (snd (time_submit_week person_id year week s))"
| reach_approve: "reachable s \<Longrightarrow> reachable (snd (approvals_approve entry_id s))"
| reach_reject: "reachable s \<Longrightarrow> reachable (snd (approvals_reject entry_id s))"

section \<open>Example states\<close>

text \<open>
  Day 738887 is 2024-01-02 and day 738888 is 2024-01-03, both in ISO week 1 of 2024.
  \<open>db_draft\<close> holds one draft entry of 8 hours of the seeded person, \<open>db_mixed\<close> an
  approved entry of 6 hours and a submitted one of 2 hours.
\<close>

definition db_draft :: db where
  "db_draft = ensure_v2_schema
     \<lparr>v2_time_entries :=
        [\<lparr>te_id = 1, te_person_id = 1, te_project_id = None, te_work_date = 738887,
          te_hours = Num 8, te_notes = None, te_status = ''draft''\<rparr>],
      v2_time_entries_id_seq := 1\<rparr>"

definition db_mixed :: db where
  "db_mixed = ensure_v2_schema
     \<lparr>v2_time_entries :=
        [\<lparr>te_id = 1, te_person_id = 1, te_project_id = None, te_work_date = 738887,
          te_hours = Num 6, te_notes = None, te_status = ''approved''\<rparr>,
         \<lparr>te_id = 2, te_person_id = 1, te_project_id = None, te_work_date = 738888,
          te_hours = Num 2, te_notes = None, te_status = ''submitted''\<rparr>],
      v2_time_entries_id_seq := 2\<rparr>"

text \<open>
  \<open>db_two_people\<close> has two people, stored with the larger id first, and \<open>db_no_people\<close>
  has none (the seeded person was deleted).
\<close>
definition db_two_people :: db where
  "db_two_people = ensure_v2_schema
     \<lparr>v2_people := [\<lparr>p_id = 5, p_name = ''Grace Hopper'', p_email = None\<rparr>,
                    \<lparr>p_id = 3, p_name = ''Alan Turing'', p_email = None\<rparr>]\<rparr>"

definition db_no_people :: db where
  "db_no_people = ensure_v2_schema\<lparr>v2_people := []\<rparr>"


section \<open>Notions of the specification\<close>

text \<open>
  ISO 8601 counts a week to the year that holds its Thursday, so week 1 is the week of the
  year's first Thursday, and a year has as many weeks as it has Thursdays.  These two
  definitions follow that wording, not the code: the first Thursday is the day among the
  first seven of the year whose weekday is 3 (\<open>first_thursday_char\<close> and
  \<open>first_thursday_unique\<close> below), and the number of weeks is the number of weeks from one
  year's first Thursday to the next year's.
\<close>

definition first_thursday :: "int \<Rightarrow> int" where
  "first_thursday year = (let jan1 = ymd2ord year 1 1 in jan1 + (10 - (jan1 + 6) mod 7) mod 7)"

definition iso_weeks_in_year :: "int \<Rightarrow> int" where
  "iso_weeks_in_year year = (first_thursday (year + 1) - first_thursday year) div 7"

section \<open>The calendar: ordinals and dates\<close>

lemma div_succ:
  fixes x k :: int
  assumes "0 < k"
  shows "(x + 1) div k = x div k + (if (x + 1) mod k = 0 then 1 else 0)"
proof -
  have e1: "x = k * (x div k) + x mod k" by simp
  have r: "0 \<le> x mod k" "x mod k < k" using assms by simp_all
  show ?thesis
  proof (cases "x mod k = k - 1")
    case True
    have "k * (x div k) + x mod k + 1 = k * (x div k + 1) + 0"
      unfolding True by (simp add: algebra_simps)
    with e1 have e: "x + 1 = k * (x div k + 1) + 0" by simp
    have "(x + 1) div k = x div k + 1" using int_div_pos_eq [OF e] assms by simp
    moreover have "(x + 1) mod k = 0" using int_mod_pos_eq [OF e] assms by simp
    ultimately show ?thesis by simp
  next
    case False
    then have lt: "x mod k + 1 < k" using r by simp
    have e: "x + 1 = k * (x div k) + (x mod k + 1)" using e1 by simp
    have "(x + 1) div k = x div k" using int_div_pos_eq [OF e] lt r by simp
    moreover have "(x + 1) mod k = x mod k + 1" using int_mod_pos_eq [OF e] lt r by simp
    ultimately show ?thesis using r by simp
  qed
qed

lemma mod_400_100: "(y::int) mod 400 = 0 \<Longrightarrow> y mod 100 = 0"
proof -
  assume "y mod 400 = 0"
  then have "400 dvd y" by (rule mod_0_imp_dvd)
  moreover have "(100::int) dvd 400" by simp
  ultimately have "100 dvd y" by (rule dvd_trans [rotated])
  then show ?thesis by (rule dvd_imp_mod_0)
qed

lemma mod_100_4: "(y::int) mod 100 = 0 \<Longrightarrow> y mod 4 = 0"
proof -
  assume "y mod 100 = 0"
  then have "100 dvd y" by (rule mod_0_imp_dvd)
  moreover have "(4::int) dvd 100" by simp
  ultimately have "4 dvd y" by (rule dvd_trans [rotated])
  then show ?thesis by (rule dvd_imp_mod_0)
qed

lemma days_before_year_step:
  "days_before_year (y + 1) = days_before_year y + (if is_leap y then 366 else 365)"
proof -
  have a: "y div 4 = (y - 1) div 4 + (if y mod 4 = 0 then 1 else 0)"
    using div_succ [of 4 "y - 1"] by simp
  have b: "y div 100 = (y - 1) div 100 + (if y mod 100 = 0 then 1 else 0)"
    using div_succ [of 100 "y - 1"] by simp
  have c: "y div 400 = (y - 1) div 400 + (if y mod 400 = 0 then 1 else 0)"
    using div_succ [of 400 "y - 1"] by simp
  have e: "days_before_year (y + 1) = y * 365 + y div 4 - y div 100 + y div 400"
    by (simp add: days_before_year_def Let_def)
  have f: "days_before_year y = (y - 1) * 365 + (y - 1) div 4 - (y - 1) div 100 + (y - 1) div 400"
    by (simp add: days_before_year_def Let_def)
  show ?thesis
  proof (cases "y mod 4 = 0")
    case False
    then have n100: "y mod 100 \<noteq> 0" by (rule contrapos_nn) (rule mod_100_4)
    then have "y mod 400 \<noteq> 0" by (rule contrapos_nn) (rule mod_400_100)
    note n100 this
    with False show ?thesis unfolding e f a b c is_leap_def by (simp add: algebra_simps)
  next
    case m4: True
    show ?thesis
    proof (cases "y mod 100 = 0")
      case False
      then have "y mod 400 \<noteq> 0" by (rule contrapos_nn) (rule mod_400_100)
      with False m4 show ?thesis unfolding e f a b c is_leap_def by (simp add: algebra_simps)
    next
      case m100: True
      show ?thesis
      proof (cases "y mod 400 = 0")
        case True
        with m4 m100 show ?thesis unfolding e f a b c is_leap_def by (simp add: algebra_simps)
      next
        case False
        with m4 m100 show ?thesis unfolding e f a b c is_leap_def by (simp add: algebra_simps)
      qed
    qed
  qed
qed

lemma days_before_year_less: "days_before_year y < days_before_year (y + 1)"
  by (simp add: days_before_year_step)

lemma days_before_year_mono_aux: "0 \<le> k \<Longrightarrow> days_before_year y \<le> days_before_year (y + k)"
proof (induction k rule: int_ge_induct)
  case base
  then show ?case by simp
next
  case (step i)
  have "days_before_year (y + (i + 1)) = days_before_year ((y + i) + 1)" by (simp add: add.assoc)
  with step days_before_year_less [of "y + i"] show ?case by simp
qed

lemma days_before_year_mono: "y \<le> y' \<Longrightarrow> days_before_year y \<le> days_before_year y'"
  using days_before_year_mono_aux [of "y' - y" y] by simp

lemma days_before_year_strict: "y < y' \<Longrightarrow> days_before_year y < days_before_year y'"
  using days_before_year_mono [of "y + 1" y'] days_before_year_less [of y] by simp

lemma days_before_year_decomp:
  assumes "0 \<le> b" "b \<le> 3" "0 \<le> c" "c \<le> 24" "0 \<le> d" "d \<le> 3"
  shows "days_before_year (a * 400 + 1 + (b * 100 + c * 4 + d))
           = a * 146097 + b * 36524 + c * 1461 + d * 365"
proof -
  define y where "y = a * 400 + (b * 100 + c * 4 + d)"
  have d4: "y div 4 = a * 100 + b * 25 + c"
    by (rule int_div_pos_eq [where r = d]) (use assms in \<open>simp_all add: y_def\<close>)
  have d100: "y div 100 = a * 4 + b"
    by (rule int_div_pos_eq [where r = "c * 4 + d"]) (use assms in \<open>simp_all add: y_def\<close>)
  have d400: "y div 400 = a"
    by (rule int_div_pos_eq [where r = "b * 100 + c * 4 + d"])
      (use assms in \<open>simp_all add: y_def\<close>)
  have "days_before_year (y + 1) = y * 365 + y div 4 - y div 100 + y div 400"
    by (simp add: days_before_year_def Let_def)
  also have "\<dots> = a * 146097 + b * 36524 + c * 1461 + d * 365"
    unfolding d4 d100 d400 by (simp add: y_def)
  finally show ?thesis by (simp add: y_def add.commute add.left_commute)
qed

lemma is_leap_decomp:
  assumes "0 \<le> b" "b \<le> 3" "0 \<le> c" "c \<le> 24" "0 \<le> d" "d \<le> 3"
  shows "is_leap (a * 400 + 1 + (b * 100 + c * 4 + d)) \<longleftrightarrow> d = 3 \<and> (c \<noteq> 24 \<or> b = 3)"
proof -
  define y where "y = a * 400 + 1 + (b * 100 + c * 4 + d)"
  have goal: "is_leap y \<longleftrightarrow> d = 3 \<and> (c \<noteq> 24 \<or> b = 3)"
  proof (cases "d = 3")
    case False
    have "y mod 4 = d + 1"
      by (rule int_mod_pos_eq [where q = "a * 100 + b * 25 + c"])
        (use assms False in \<open>simp_all add: y_def\<close>)
    then have "y mod 4 \<noteq> 0" using assms by simp
    then show ?thesis using False by (simp add: is_leap_def)
  next
    case True
    have m4: "y mod 4 = 0"
      by (rule int_mod_pos_eq [where q = "a * 100 + b * 25 + c + 1"])
        (use True in \<open>simp_all add: y_def\<close>)
    show ?thesis
    proof (cases "c = 24")
      case c24: True
      have m100: "y mod 100 = 0"
        by (rule int_mod_pos_eq [where q = "a * 4 + b + 1"])
          (use True c24 in \<open>simp_all add: y_def\<close>)
      have "y mod 400 = 0 \<longleftrightarrow> b = 3"
      proof (cases "b = 3")
        case b3: True
        have "y mod 400 = 0"
          by (rule int_mod_pos_eq [where q = "a + 1"])
            (use True c24 b3 in \<open>simp_all add: y_def\<close>)
        then show ?thesis using b3 by simp
      next
        case False
        have "y mod 400 = (b + 1) * 100"
          by (rule int_mod_pos_eq [where q = a])
            (use True c24 False assms in \<open>simp_all add: y_def\<close>)
        then show ?thesis using False assms by simp
      qed
      then show ?thesis using True c24 m4 m100 by (simp add: is_leap_def)
    next
      case False
      have "y mod 100 = (c + 1) * 4"
        by (rule int_mod_pos_eq [where q = "a * 4 + b"])
          (use True False assms in \<open>simp_all add: y_def\<close>)
      then have "y mod 100 \<noteq> 0" using assms by simp
      then show ?thesis using True False m4 by (simp add: is_leap_def)
    qed
  qed
  then show ?thesis by (simp add: y_def)
qed

lemma month_table:
  fixes n month :: int and leap :: bool
  assumes n: "0 \<le> n" "n < 365 + (if leap then 1 else 0)"
    and month: "month = (n + 50) div 32"
  shows "\<exists>m d.
     (let preceding = DAYS_BEFORE_MONTH ! nat month + (if month > 2 \<and> leap then 1 else 0)
      in if preceding > n
         then let month' = month - 1;
                  preceding' = preceding - (DAYS_IN_MONTH ! nat month'
                                  + (if month' = 2 \<and> leap then 1 else 0))
              in (month', n - preceding' + 1)
         else (month, n - preceding + 1)) = (m, d)
     \<and> 1 \<le> m \<and> m \<le> 12 \<and> 1 \<le> d
     \<and> d \<le> (if m = 2 \<and> leap then 29 else DAYS_IN_MONTH ! nat m)
     \<and> DAYS_BEFORE_MONTH ! nat m + (if m > 2 \<and> leap then 1 else 0) + d = n + 1"
proof -
  have lo: "32 * month - 50 \<le> n" and hi: "n \<le> 32 * month - 19"
    unfolding month by presburger+
  have "1 \<le> month" "month \<le> 12" using n lo hi by (auto split: if_splits)
  then have "month = 1 \<or> month = 2 \<or> month = 3 \<or> month = 4 \<or> month = 5 \<or> month = 6
     \<or> month = 7 \<or> month = 8 \<or> month = 9 \<or> month = 10 \<or> month = 11 \<or> month = 12"
    by presburger
  then show ?thesis
  proof (elim disjE, goal_cases)
    case 1
    with lo hi n show ?thesis
      by (cases leap) (simp_all add: DAYS_BEFORE_MONTH_def DAYS_IN_MONTH_def Let_def)
  next
    case 2
    with lo hi n show ?thesis
      by (cases leap) (simp_all add: DAYS_BEFORE_MONTH_def DAYS_IN_MONTH_def Let_def)
  next
    case 3
    with lo hi n show ?thesis
      by (cases leap) (simp_all add: DAYS_BEFORE_MONTH_def DAYS_IN_MONTH_def Let_def)
  next
    case 4
    with lo hi n show ?thesis
      by (cases leap) (simp_all add: DAYS_BEFORE_MONTH_def DAYS_IN_MONTH_def Let_def)
  next
    case 5
    with lo hi n show ?thesis
      by (cases leap) (simp_all add: DAYS_BEFORE_MONTH_def DAYS_IN_MONTH_def Let_def)
  next
    case 6
    with lo hi n show ?thesis
      by (cases leap) (simp_all add: DAYS_BEFORE_MONTH_def DAYS_IN_MONTH_def Let_def)
  next
    case 7
    with lo hi n show ?thesis
      by (cases leap) (simp_all add: DAYS_BEFORE_MONTH_def DAYS_IN_MONTH_def Let_def)
  next
    case 8
    with lo hi n show ?thesis
      by (cases leap) (simp_all add: DAYS_BEFORE_MONTH_def DAYS_IN_MONTH_def Let_def)
  next
    case 9
    with lo hi n show ?thesis
      by (cases leap) (simp_all add: DAYS_BEFORE_MONTH_def DAYS_IN_MONTH_def Let_def)
  next
    case 10
    with lo hi n show ?thesis
      by (cases leap) (simp_all add: DAYS_BEFORE_MONTH_def DAYS_IN_MONTH_def Let_def)
  next
    case 11
    with lo hi n show ?thesis
      by (cases leap) (simp_all add: DAYS_BEFORE_MONTH_def DAYS_IN_MONTH_def Let_def)
  next
    case 12
    with lo hi n show ?thesis
      by (cases leap) (simp_all add: DAYS_BEFORE_MONTH_def DAYS_IN_MONTH_def Let_def)
  qed
qed

lemma ord2ymd_spec:
  "\<exists>y m d. ord2ymd n = (y, m, d) \<and> 1 \<le> m \<and> m \<le> 12 \<and> 1 \<le> d \<and> d \<le> days_in_month y m
     \<and> ymd2ord y m d = n"
proof -
  define a where "a = (n - 1) div 146097"
  define r1 where "r1 = (n - 1) mod 146097"
  define b where "b = r1 div 36524"
  define r2 where "r2 = r1 mod 36524"
  define c where "c = r2 div 1461"
  define r3 where "r3 = r2 mod 1461"
  define d where "d = r3 div 365"
  define r4 where "r4 = r3 mod 365"
  define Y where "Y = a * 400 + 1 + (b * 100 + c * 4 + d)"
  define leapyear where "leapyear \<longleftrightarrow> d = 3 \<and> (c \<noteq> 24 \<or> b = 3)"
  define X where "X =
     (let preceding = DAYS_BEFORE_MONTH ! nat ((r4 + 50) div 32)
                        + (if (r4 + 50) div 32 > 2 \<and> leapyear then 1 else 0)
      in if preceding > r4
         then let month' = (r4 + 50) div 32 - 1;
                  preceding' = preceding - (DAYS_IN_MONTH ! nat month'
                                  + (if month' = 2 \<and> leapyear then 1 else 0))
              in (month', r4 - preceding' + 1)
         else ((r4 + 50) div 32, r4 - preceding + 1))"
  have e1: "n - 1 = a * 146097 + r1" by (simp add: a_def r1_def)
  have e2: "r1 = b * 36524 + r2" by (simp add: b_def r2_def)
  have e3: "r2 = c * 1461 + r3" by (simp add: c_def r3_def)
  have e4: "r3 = d * 365 + r4" by (simp add: d_def r4_def)
  have b1: "0 \<le> r1" "r1 < 146097" by (simp_all add: r1_def)
  have b2: "0 \<le> r2" "r2 < 36524" by (simp_all add: r2_def)
  have b3: "0 \<le> r3" "r3 < 1461" by (simp_all add: r3_def)
  have b4: "0 \<le> r4" "r4 < 365" by (simp_all add: r4_def)
  have bb: "0 \<le> b" "b \<le> 4" using e2 b1 b2 by linarith+
  have bc: "0 \<le> c" "c \<le> 24" using e3 b2 b3 by linarith+
  have bd: "0 \<le> d" "d \<le> 4" using e4 b3 b4 by linarith+
  have n_eq: "n = a * 146097 + b * 36524 + c * 1461 + d * 365 + r4 + 1"
    using e1 e2 e3 e4 by linarith
  have pair_if: "\<And>c (y::int) (p::int) (q::int) p' q'.
      (if c then (y, p, q) else (y, p', q'))
        = (y, fst (if c then (p, q) else (p', q')), snd (if c then (p, q) else (p', q')))"
    by simp
  have o: "ord2ymd n =
      (if d = 4 \<or> b = 4 then (Y - 1, 12, 31) else (Y, fst X, snd X))"
    unfolding ord2ymd_def Let_def DI400Y_def DI100Y_def DI4Y_def
    unfolding a_def [symmetric] r1_def [symmetric]
    unfolding b_def [symmetric] r2_def [symmetric]
    unfolding c_def [symmetric] r3_def [symmetric]
    unfolding d_def [symmetric] r4_def [symmetric]
    unfolding X_def Y_def leapyear_def Let_def
    by (simp only: pair_if)
  consider (century) "b = 4" | (fourth) "b \<le> 3" "d = 4" | (plain) "b \<le> 3" "d \<le> 3"
    using bb bd by linarith
  then show ?thesis
  proof cases
    case century
    have z: "r2 = 0" using e2 b1 b2 century by linarith
    have "c = 0" by (simp add: c_def z)
    moreover have "r3 = 0" by (simp add: r3_def z)
    moreover from this have "d = 0" by (simp add: d_def)
    moreover from \<open>r3 = 0\<close> have "r4 = 0" by (simp add: r4_def)
    ultimately have Y1: "Y - 1 = a * 400 + 1 + (3 * 100 + 24 * 4 + 3)"
      and n1: "n = a * 146097 + 146097"
      using century n_eq by (simp_all add: Y_def)
    have dby: "days_before_year (Y - 1) = a * 146097 + 3 * 36524 + 24 * 1461 + 3 * 365"
      unfolding Y1 by (rule days_before_year_decomp) simp_all
    have leap: "is_leap (Y - 1)"
      unfolding Y1 by (subst is_leap_decomp) simp_all
    have "ord2ymd n = (Y - 1, 12, 31)" using o century by simp
    moreover have "days_in_month (Y - 1) 12 = 31"
      by (simp add: days_in_month_def DAYS_IN_MONTH_def)
    moreover have "ymd2ord (Y - 1) 12 31 = n"
      unfolding ymd2ord_def days_before_month_def dby n1
      using leap by (simp add: DAYS_BEFORE_MONTH_def)
    ultimately show ?thesis by simp
  next
    case fourth
    have z: "r4 = 0" using e4 b3 b4 fourth by linarith
    have c23: "c \<le> 23" using e3 e4 b2 b4 fourth bc by linarith
    have Y1: "Y - 1 = a * 400 + 1 + (b * 100 + c * 4 + 3)"
      using fourth by (simp add: Y_def)
    have n1: "n = a * 146097 + b * 36524 + c * 1461 + 1461"
      using n_eq fourth z by simp
    have dby: "days_before_year (Y - 1) = a * 146097 + b * 36524 + c * 1461 + 3 * 365"
      unfolding Y1 by (rule days_before_year_decomp) (use bb bc fourth in simp_all)
    have leap: "is_leap (Y - 1)"
      unfolding Y1 by (subst is_leap_decomp) (use bb bc fourth c23 in simp_all)
    have "ord2ymd n = (Y - 1, 12, 31)" using o fourth by simp
    moreover have "days_in_month (Y - 1) 12 = 31"
      by (simp add: days_in_month_def DAYS_IN_MONTH_def)
    moreover have "ymd2ord (Y - 1) 12 31 = n"
      unfolding ymd2ord_def days_before_month_def dby n1
      using leap by (simp add: DAYS_BEFORE_MONTH_def)
    ultimately show ?thesis by simp
  next
    case plain
    have dby: "days_before_year Y = a * 146097 + b * 36524 + c * 1461 + d * 365"
      unfolding Y_def by (rule days_before_year_decomp) (use bb bc bd plain in simp_all)
    have leap: "is_leap Y \<longleftrightarrow> leapyear"
      unfolding Y_def leapyear_def by (rule is_leap_decomp) (use bb bc bd plain in simp_all)
    have r4': "r4 < 365 + (if leapyear then 1 else 0)" using b4 by simp
    from month_table [OF b4(1) r4' refl, folded X_def]
    obtain m dd where X: "X = (m, dd)" and m: "1 \<le> m" "m \<le> 12" and dd: "1 \<le> dd"
      "dd \<le> (if m = 2 \<and> leapyear then 29 else DAYS_IN_MONTH ! nat m)"
      and s: "DAYS_BEFORE_MONTH ! nat m + (if m > 2 \<and> leapyear then 1 else 0) + dd = r4 + 1"
      by blast
    have "ord2ymd n = (Y, m, dd)" using o plain X by simp
    moreover have "dd \<le> days_in_month Y m" using dd(2) by (simp add: days_in_month_def leap)
    moreover have "ymd2ord Y m dd = n"
      unfolding ymd2ord_def days_before_month_def dby leap n_eq using s by simp
    ultimately show ?thesis using m dd(1) by simp
  qed
qed

lemma month_cases:
  fixes m :: int
  assumes "1 \<le> m" "m \<le> 12"
  shows "m = 1 \<or> m = 2 \<or> m = 3 \<or> m = 4 \<or> m = 5 \<or> m = 6
     \<or> m = 7 \<or> m = 8 \<or> m = 9 \<or> m = 10 \<or> m = 11 \<or> m = 12"
  using assms by presburger

lemma day_of_year_bounds:
  assumes "1 \<le> m" "m \<le> 12" "1 \<le> d" "d \<le> days_in_month y m"
  shows "1 \<le> days_before_month y m + d"
    and "days_before_month y m + d \<le> (if is_leap y then 366 else 365)"
  using month_cases [OF assms(1,2)] assms(3,4)
  by (auto simp: days_before_month_def days_in_month_def DAYS_BEFORE_MONTH_def DAYS_IN_MONTH_def
      split: if_splits)

lemma days_before_month_step:
  assumes "1 \<le> m" "m \<le> 11"
  shows "days_before_month y (m + 1) = days_before_month y m + days_in_month y m"
proof -
  have "m = 1 \<or> m = 2 \<or> m = 3 \<or> m = 4 \<or> m = 5 \<or> m = 6
     \<or> m = 7 \<or> m = 8 \<or> m = 9 \<or> m = 10 \<or> m = 11" using assms by presburger
  then show ?thesis
    by (auto simp: days_before_month_def days_in_month_def DAYS_BEFORE_MONTH_def
        DAYS_IN_MONTH_def)
qed

lemma days_before_month_bounds:
  assumes "1 \<le> m" "m \<le> 12"
  shows "61 * (m - 1) - 4 \<le> 2 * days_before_month y m"
    and "2 * days_before_month y m \<le> 61 * (m - 1) + 3"
  using month_cases [OF assms]
  by (auto simp: days_before_month_def DAYS_BEFORE_MONTH_def)

lemma days_in_month_le: "1 \<le> m \<Longrightarrow> m \<le> 12 \<Longrightarrow> days_in_month y m \<le> 31"
  using month_cases [of m]
  by (auto simp: days_in_month_def DAYS_IN_MONTH_def)

lemma days_before_month_mono:
  assumes "1 \<le> m" "m < m'" "m' \<le> 12"
  shows "days_before_month y m + days_in_month y m \<le> days_before_month y m'"
proof (cases "m' = m + 1")
  case True
  then show ?thesis using days_before_month_step [of m y] assms by simp
next
  case False
  then have "m + 2 \<le> m'" using assms by simp
  moreover have "2 * days_before_month y m \<le> 61 * (m - 1) + 3"
    using days_before_month_bounds(2) [of m y] assms by simp
  moreover have "61 * (m' - 1) - 4 \<le> 2 * days_before_month y m'"
    using days_before_month_bounds(1) [of m' y] assms by simp
  moreover have "days_in_month y m \<le> 31" using days_in_month_le [of m y] assms by simp
  ultimately show ?thesis by arith
qed

lemma ymd2ord_year_bounds:
  assumes "1 \<le> m" "m \<le> 12" "1 \<le> d" "d \<le> days_in_month y m"
  shows "days_before_year y < ymd2ord y m d" and "ymd2ord y m d \<le> days_before_year (y + 1)"
  using day_of_year_bounds [OF assms] by (simp_all add: ymd2ord_def days_before_year_step)

lemma ymd2ord_less:
  assumes v: "1 \<le> m" "m \<le> 12" "1 \<le> d" "d \<le> days_in_month y m"
    and v': "1 \<le> m'" "m' \<le> 12" "1 \<le> d'" "d' \<le> days_in_month y' m'"
    and lt: "(y, m, d) < (y', m', d')"
  shows "ymd2ord y m d < ymd2ord y' m' d'"
proof -
  have "y < y' \<or> (y = y' \<and> m < m') \<or> (y = y' \<and> m = m' \<and> d < d')"
    using lt unfolding less_prod_def by (simp; arith)
  then consider (year) "y < y'" | (month) "y = y'" "m < m'" | (day) "y = y'" "m = m'" "d < d'"
    by metis
  then show ?thesis
  proof cases
    case year
    then have "days_before_year (y + 1) \<le> days_before_year y'"
      by (intro days_before_year_mono) simp
    with ymd2ord_year_bounds(2) [OF v] ymd2ord_year_bounds(1) [OF v'] show ?thesis by simp
  next
    case month
    with days_before_month_mono [of m m' y] v v' show ?thesis
      by (simp add: ymd2ord_def)
  next
    case day
    then show ?thesis by (simp add: ymd2ord_def)
  qed
qed

lemma date_new_Inr:
  "date_new y m d = Inr A \<longleftrightarrow>
     1 \<le> y \<and> y \<le> 9999 \<and> 1 \<le> m \<and> m \<le> 12 \<and> 1 \<le> d \<and> d \<le> days_in_month y m
     \<and> A = \<lparr>d_year = y, d_month = m, d_day = d\<rparr>"
  by (auto simp: date_new_def MINYEAR_def MAXYEAR_def)

lemma date_le_iff:
  assumes "date_new y m d = Inr A" "date_new y' m' d' = Inr B"
  shows "date_le A B \<longleftrightarrow> toordinal A \<le> toordinal B"
proof -
  from assms have v: "1 \<le> m" "m \<le> 12" "1 \<le> d" "d \<le> days_in_month y m"
    and v': "1 \<le> m'" "m' \<le> 12" "1 \<le> d'" "d' \<le> days_in_month y' m'"
    and A: "A = \<lparr>d_year = y, d_month = m, d_day = d\<rparr>"
    and B: "B = \<lparr>d_year = y', d_month = m', d_day = d'\<rparr>"
    by (simp_all add: date_new_Inr)
  show ?thesis
  proof
    assume "date_le A B"
    then have "(y, m, d) \<le> (y', m', d')" by (simp add: date_le_def A B)
    then have "(y, m, d) < (y', m', d') \<or> (y, m, d) = (y', m', d')" by (simp add: le_less)
    then show "toordinal A \<le> toordinal B"
      using ymd2ord_less [OF v v'] by (auto simp: toordinal_def A B)
  next
    assume le: "toordinal A \<le> toordinal B"
    show "date_le A B"
    proof (rule ccontr)
      assume "\<not> date_le A B"
      then have "\<not> (y, m, d) \<le> (y', m', d')" by (simp add: date_le_def A B)
      then have "(y', m', d') < (y, m, d)" by (simp only: not_le)
      from ymd2ord_less [OF v' v this] le show False by (simp add: toordinal_def A B)
    qed
  qed
qed

lemma fromordinal_ok:
  assumes "1 \<le> n" "n \<le> MAXORDINAL"
  shows "\<exists>A. fromordinal n = Inr A \<and> toordinal A = n
           \<and> date_new (d_year A) (d_month A) (d_day A) = Inr A"
proof -
  from ord2ymd_spec [of n] obtain y m d where o: "ord2ymd n = (y, m, d)"
    and v: "1 \<le> m" "m \<le> 12" "1 \<le> d" "d \<le> days_in_month y m" and r: "ymd2ord y m d = n"
    by blast
  have lo: "days_before_year y < n" and hi: "n \<le> days_before_year (y + 1)"
    using ymd2ord_year_bounds [OF v] r by simp_all
  have "1 \<le> y"
  proof (rule ccontr)
    assume "\<not> 1 \<le> y"
    then have "days_before_year (y + 1) \<le> days_before_year 1"
      by (intro days_before_year_mono) simp
    also have "days_before_year 1 = 0" by (simp add: days_before_year_def)
    finally show False using hi assms by simp
  qed
  moreover have "y \<le> 9999"
  proof (rule ccontr)
    assume "\<not> y \<le> 9999"
    then have "days_before_year 10000 \<le> days_before_year y"
      by (intro days_before_year_mono) simp
    moreover have "days_before_year 10000 = 3652059" by (simp add: days_before_year_def)
    ultimately show False using lo assms by (simp add: MAXORDINAL_def)
  qed
  ultimately have "date_new y m d = Inr \<lparr>d_year = y, d_month = m, d_day = d\<rparr>"
    using v by (simp add: date_new_Inr)
  then show ?thesis using o r by (simp add: fromordinal_def toordinal_def)
qed

section \<open>The calendar: ISO weeks\<close>

lemma mod7_cases:
  fixes d :: int
  assumes "\<And>c. c = 0 \<or> c = 1 \<or> c = 2 \<or> c = 3 \<or> c = 4 \<or> c = 5 \<or> c = 6 \<Longrightarrow> d mod 7 = c
             \<Longrightarrow> (\<And>k. (d + k) mod 7 = (c + k) mod 7)
             \<Longrightarrow> (\<And>k. (k + d) mod 7 = (c + k) mod 7) \<Longrightarrow> P"
  shows P
proof (rule assms [of "d mod 7"])
  have "0 \<le> d mod 7" "d mod 7 < 7" by simp_all
  then show "d mod 7 = 0 \<or> d mod 7 = 1 \<or> d mod 7 = 2 \<or> d mod 7 = 3 \<or> d mod 7 = 4
     \<or> d mod 7 = 5 \<or> d mod 7 = 6" by arith
  show "d mod 7 = d mod 7" by simp
  show "(d + k) mod 7 = (d mod 7 + k) mod 7" for k by (simp add: mod_add_left_eq)
  show "(k + d) mod 7 = (d mod 7 + k) mod 7" for k
    using mod_add_left_eq [of d 7 k] by (simp only: add.commute [of k d])
qed

lemma ymd2ord_jan1: "ymd2ord y 1 1 = days_before_year y + 1"
  by (simp add: ymd2ord_def days_before_month_def DAYS_BEFORE_MONTH_def)

lemma first_thursday_char:
  "ymd2ord year 1 1 \<le> first_thursday year \<and> first_thursday year \<le> ymd2ord year 1 1 + 6
   \<and> (first_thursday year + 6) mod 7 = 3"
  unfolding first_thursday_def Let_def ymd2ord_jan1
  by (rule mod7_cases [of "days_before_year year"]) (elim disjE; simp)

lemma first_thursday_unique:
  assumes "ymd2ord year 1 1 \<le> t" "t \<le> ymd2ord year 1 1 + 6" "(t + 6) mod 7 = 3"
  shows "t = first_thursday year"
proof -
  define k where "k = t - ymd2ord year 1 1"
  have t: "t = days_before_year year + (k + 1)" by (simp add: k_def ymd2ord_jan1)
  have k: "k = 0 \<or> k = 1 \<or> k = 2 \<or> k = 3 \<or> k = 4 \<or> k = 5 \<or> k = 6"
    using assms(1,2) unfolding k_def by arith
  have m: "(days_before_year year + (k + 7)) mod 7 = 3" using assms(3) by (simp add: t add.assoc)
  show ?thesis
    unfolding first_thursday_def Let_def ymd2ord_jan1 t
    using m k
    by (rule_tac mod7_cases [of "days_before_year year"]) (elim disjE; simp)
qed

lemma isoweek1monday_thursday: "isoweek1monday year = first_thursday year - 3"
  unfolding isoweek1monday_def first_thursday_def Let_def ymd2ord_jan1
  by (rule mod7_cases [of "days_before_year year"]) (elim disjE; simp)

lemma iso_weeks_in_year_eq:
  "iso_weeks_in_year year =
     (if ymd2ord year 1 1 mod 7 = 4 \<or> (ymd2ord year 1 1 mod 7 = 3 \<and> is_leap year)
      then 53 else 52)"
  unfolding iso_weeks_in_year_def first_thursday_def Let_def ymd2ord_jan1 days_before_year_step
  by (rule mod7_cases [of "days_before_year year"]) (elim disjE; simp)

section \<open>The calendar: date operations\<close>

lemma collect_map_Inr: "collect (map Inr vs) = Inr vs"
  by (induction vs) simp_all

lemma collect_Inr_D: "collect xs = Inr vs \<Longrightarrow> xs = map Inr vs"
  by (induction xs arbitrary: vs) (auto split: sum.splits)

lemma fromordinal_Inr:
  assumes "fromordinal n = Inr a"
  shows "toordinal a = n" and "date_new (d_year a) (d_month a) (d_day a) = Inr a"
proof -
  from ord2ymd_spec [of n] obtain y m d where o: "ord2ymd n = (y, m, d)"
    and r: "ymd2ord y m d = n" by blast
  from assms o have "date_new y m d = Inr a" by (simp add: fromordinal_def)
  then have a: "a = \<lparr>d_year = y, d_month = m, d_day = d\<rparr>" and "date_new y m d = Inr a"
    by (simp_all add: date_new_Inr)
  then show "toordinal a = n" and "date_new (d_year a) (d_month a) (d_day a) = Inr a"
    using r by (simp_all add: toordinal_def)
qed

lemma date_add_Inr:
  assumes "date_add d i = Inr a"
  shows "0 < toordinal d + i" "toordinal d + i \<le> MAXORDINAL"
    "fromordinal (toordinal d + i) = Inr a" "toordinal a = toordinal d + i"
proof -
  from assms show 1: "0 < toordinal d + i" "toordinal d + i \<le> MAXORDINAL"
    and 3: "fromordinal (toordinal d + i) = Inr a"
    by (auto simp: date_add_def Let_def split: if_splits)
  from fromordinal_Inr(1) [OF 3] show "toordinal a = toordinal d + i" .
qed

lemma date_add_ok:
  assumes "0 < toordinal d + i" "toordinal d + i \<le> MAXORDINAL"
  shows "\<exists>a. date_add d i = Inr a"
  using fromordinal_ok [of "toordinal d + i"] assms by (auto simp: date_add_def Let_def)

lemma fromisocalendar_Inr:
  assumes "fromisocalendar year week 1 = Inr monday"
  shows "toordinal monday = isoweek1monday year + 7 * (week - 1)"
    and "fromordinal (isoweek1monday year + 7 * (week - 1)) = Inr monday"
proof -
  let ?n = "isoweek1monday year + 7 * (week - 1)"
  from assms have "isoweek_to_gregorian year week 1 = Inr (ord2ymd ?n)"
    by (auto simp: fromisocalendar_def isoweek_to_gregorian_def Let_def algebra_simps
        split: if_splits sum.splits)
  with assms show "fromordinal ?n = Inr monday"
    by (simp add: fromisocalendar_def fromordinal_def)
  from fromordinal_Inr(1) [OF this] show "toordinal monday = ?n" .
qed

lemma iso_week_dates_Inr:
  assumes "iso_week_dates year week = Inr days"
  defines "m0 \<equiv> isoweek1monday year + 7 * (week - 1)"
  shows "length days = 7"
    and "map toordinal days = [m0, m0 + 1, m0 + 2, m0 + 3, m0 + 4, m0 + 5, m0 + 6]"
    and "map fromordinal [m0, m0 + 1, m0 + 2, m0 + 3, m0 + 4, m0 + 5, m0 + 6] = map Inr days"
    and "1 \<le> m0" and "m0 + 6 \<le> MAXORDINAL"
proof -
  from assms(1) obtain monday where mon: "fromisocalendar year week 1 = Inr monday"
    and c: "collect (map (\<lambda>i. date_add monday i) [0, 1, 2, 3, 4, 5, 6]) = Inr days"
    by (auto simp: iso_week_dates_def split: sum.splits)
  have tm: "toordinal monday = m0"
    using fromisocalendar_Inr(1) [OF mon] by (simp add: m0_def)
  from collect_Inr_D [OF c] obtain a0 a1 a2 a3 a4 a5 a6 where
    days: "days = [a0, a1, a2, a3, a4, a5, a6]"
    and a: "date_add monday 0 = Inr a0" "date_add monday 1 = Inr a1"
      "date_add monday 2 = Inr a2" "date_add monday 3 = Inr a3" "date_add monday 4 = Inr a4"
      "date_add monday 5 = Inr a5" "date_add monday 6 = Inr a6"
    by (cases days rule: list.exhaust; simp; fail | (auto simp: map_eq_Cons_conv))
  show "length days = 7" by (simp add: days)
  show "map toordinal days = [m0, m0 + 1, m0 + 2, m0 + 3, m0 + 4, m0 + 5, m0 + 6]"
    using a [THEN date_add_Inr(4)] by (simp add: days tm)
  show "map fromordinal [m0, m0 + 1, m0 + 2, m0 + 3, m0 + 4, m0 + 5, m0 + 6] = map Inr days"
    using a [THEN date_add_Inr(3)] by (simp add: days tm)
  show "1 \<le> m0" using date_add_Inr(1) [OF a(1)] by (simp add: tm)
  show "m0 + 6 \<le> MAXORDINAL" using date_add_Inr(2) [OF a(7)] by (simp add: tm)
qed

lemma first_thursday_step:
  "first_thursday (year + 1) = first_thursday year + 7 * iso_weeks_in_year year"
  unfolding iso_weeks_in_year_def first_thursday_def Let_def ymd2ord_jan1 days_before_year_step
  by (rule mod7_cases [of "days_before_year year"]) (elim disjE; simp)

lemma isoweek1monday_pos: "1 \<le> year \<Longrightarrow> 1 \<le> isoweek1monday year"
proof (cases "year = 1")
  case True
  then show ?thesis
    by (simp add: isoweek1monday_def ymd2ord_jan1 days_before_year_def Let_def)
next
  case False
  assume "1 \<le> year"
  with False have "days_before_year 2 \<le> days_before_year year"
    by (intro days_before_year_mono) simp
  moreover have "days_before_year 2 = 365" by (simp add: days_before_year_def)
  ultimately show ?thesis
    using first_thursday_char [of year]
    by (simp add: isoweek1monday_thursday ymd2ord_jan1)
qed

lemma iso_weeks_9999: "iso_weeks_in_year 9999 = 52"
  by (simp add: iso_weeks_in_year_eq ymd2ord_jan1 days_before_year_def is_leap_def)

lemma last_week_bound:
  assumes "1 \<le> year" "year \<le> 9999" "week \<le> iso_weeks_in_year year"
    "\<not> (year = 9999 \<and> week = 52)"
  shows "isoweek1monday year + 7 * (week - 1) + 6 \<le> MAXORDINAL"
proof (cases "year = 9999")
  case True
  with assms iso_weeks_9999 have "week \<le> 51" by simp
  moreover have "first_thursday 9999 \<le> 3651701"
    using first_thursday_char [of 9999] by (simp add: ymd2ord_jan1 days_before_year_def)
  ultimately show ?thesis
    using True by (simp add: isoweek1monday_thursday MAXORDINAL_def)
next
  case False
  with assms have "days_before_year (year + 1) \<le> days_before_year 9999"
    by (intro days_before_year_mono) simp
  moreover have "days_before_year 9999 = 3651694" by (simp add: days_before_year_def)
  moreover have "first_thursday (year + 1) \<le> days_before_year (year + 1) + 7"
    using first_thursday_char [of "year + 1"] by (simp add: ymd2ord_jan1)
  ultimately show ?thesis
    using assms(3) first_thursday_step [of year]
    by (simp add: isoweek1monday_thursday MAXORDINAL_def)
qed

lemma week_check:
  assumes "1 \<le> year" "year \<le> 9999"
  shows "(\<not> (0 < week \<and> week < 53) \<and>
              \<not> (week = 53 \<and>
                 (let first_weekday = ymd2ord year 1 1 mod 7
                  in first_weekday = 4 \<or> (first_weekday = 3 \<and> is_leap year))))
         \<longleftrightarrow> \<not> (1 \<le> week \<and> week \<le> iso_weeks_in_year year)"
  by (auto simp: iso_weeks_in_year_eq Let_def)

lemma iso_week_dates_year_error:
  assumes "\<not> (1 \<le> year \<and> year \<le> 9999)"
  shows "iso_week_dates year week = Inl (ValueError ''Year is out of range'')"
  using assms
  by (simp add: iso_week_dates_def fromisocalendar_def isoweek_to_gregorian_def
      MINYEAR_def MAXYEAR_def)

lemma iso_week_dates_week_error:
  assumes "1 \<le> year" "year \<le> 9999" "\<not> (1 \<le> week \<and> week \<le> iso_weeks_in_year year)"
  shows "iso_week_dates year week = Inl (ValueError ''Invalid week'')"
proof -
  have "isoweek_to_gregorian year week 1 = Inl (ValueError ''Invalid week'')"
    unfolding isoweek_to_gregorian_def
    using assms(1,2) week_check [OF assms(1,2), of week] assms(3)
    by (simp add: MINYEAR_def MAXYEAR_def)
  then show ?thesis by (simp add: iso_week_dates_def fromisocalendar_def)
qed

lemma iso_week_dates_ok:
  assumes "1 \<le> year" "year \<le> 9999" "1 \<le> week" "week \<le> iso_weeks_in_year year"
    "\<not> (year = 9999 \<and> week = 52)"
  shows "\<exists>days. iso_week_dates year week = Inr days"
proof -
  define m0 where "m0 = isoweek1monday year + 7 * (week - 1)"
  have lo: "1 \<le> m0" using isoweek1monday_pos [OF assms(1)] assms(3) by (simp add: m0_def)
  have hi: "m0 + 6 \<le> MAXORDINAL"
    using last_week_bound [OF assms(1,2,4,5)] by (simp add: m0_def)
  have "isoweek_to_gregorian year week 1 = Inr (ord2ymd m0)"
    unfolding isoweek_to_gregorian_def
    using assms(1,2) week_check [OF assms(1,2), of week] assms(3,4)
    by (simp add: MINYEAR_def MAXYEAR_def Let_def m0_def algebra_simps)
  then have f: "fromisocalendar year week 1 = fromordinal m0"
    by (simp add: fromisocalendar_def fromordinal_def)
  from fromordinal_ok [of m0] lo hi obtain monday where mon: "fromordinal m0 = Inr monday"
    and tm: "toordinal monday = m0" by auto
  have "\<exists>a. date_add monday i = Inr a" if "0 \<le> i" "i \<le> 6" for i
    using that lo hi by (intro date_add_ok) (simp_all add: tm)
  then obtain a where a: "\<And>i. 0 \<le> i \<Longrightarrow> i \<le> 6 \<Longrightarrow> date_add monday i = Inr (a i)"
    by metis
  have "map (\<lambda>i. date_add monday i) [0, 1, 2, 3, 4, 5, 6] = map Inr (map a [0, 1, 2, 3, 4, 5, 6])"
    by (simp add: a)
  then have "collect (map (\<lambda>i. date_add monday i) [0, 1, 2, 3, 4, 5, 6])
      = Inr (map a [0, 1, 2, 3, 4, 5, 6])"
    by (simp only: collect_map_Inr)
  then show ?thesis by (simp add: iso_week_dates_def f mon)
qed

lemma year_of_ordinal:
  assumes "date_new (d_year a) (d_month a) (d_day a) = Inr a"
    and "days_before_year y < toordinal a" "toordinal a \<le> days_before_year (y + 1)"
  shows "d_year a = y"
proof -
  from assms(1) have v: "1 \<le> d_month a" "d_month a \<le> 12" "1 \<le> d_day a"
    "d_day a \<le> days_in_month (d_year a) (d_month a)" by (simp_all add: date_new_Inr)
  note b = ymd2ord_year_bounds [OF v, folded toordinal_def]
  show ?thesis
  proof (rule ccontr)
    assume "d_year a \<noteq> y"
    then consider "d_year a < y" | "y < d_year a" by linarith
    then show False
    proof cases
      case 1
      then have "days_before_year (d_year a + 1) \<le> days_before_year y"
        by (intro days_before_year_mono) simp
      with b(2) assms(2) show False by simp
    next
      case 2
      then have "days_before_year (y + 1) \<le> days_before_year (d_year a)"
        by (intro days_before_year_mono) simp
      with b(1) assms(3) show False by simp
    qed
  qed
qed

lemma iso_week_dates_2024_1: "iso_week_dates 2024 1 =
     Inr [\<lparr>d_year = 2024, d_month = 1, d_day = 1\<rparr>, \<lparr>d_year = 2024, d_month = 1, d_day = 2\<rparr>,
          \<lparr>d_year = 2024, d_month = 1, d_day = 3\<rparr>, \<lparr>d_year = 2024, d_month = 1, d_day = 4\<rparr>,
          \<lparr>d_year = 2024, d_month = 1, d_day = 5\<rparr>, \<lparr>d_year = 2024, d_month = 1, d_day = 6\<rparr>,
          \<lparr>d_year = 2024, d_month = 1, d_day = 7\<rparr>]"
  by code_simp

lemma iso_week_dates_9999_52: "iso_week_dates 9999 52 = Inl (OverflowError ''result out of range'')"
  by code_simp

lemma iso_weeks_2024: "iso_weeks_in_year 2024 = 52"
  by (simp add: iso_weeks_in_year_eq ymd2ord_jan1 days_before_year_def is_leap_def)

lemma iso_weeks_2021: "iso_weeks_in_year 2021 = 52"
  by (simp add: iso_weeks_in_year_eq ymd2ord_jan1 days_before_year_def is_leap_def)

lemma iso_weeks_2020: "iso_weeks_in_year 2020 = 53"
  by (simp add: iso_weeks_in_year_eq ymd2ord_jan1 days_before_year_def is_leap_def)

section \<open>The week of a time entry\<close>

lemma week_ordinals:
  assumes "iso_week_dates year week = Inr days"
  shows "days \<noteq> []"
    and "toordinal ` set days = {toordinal (hd days) .. toordinal (last days)}"
    and "inj_on toordinal (set days)"
    and "\<forall>d\<in>set days. fromordinal (toordinal d) = Inr d"
proof -
  define m0 where "m0 = isoweek1monday year + 7 * (week - 1)"
  note s = iso_week_dates_Inr [OF assms, folded m0_def]
  from s(1) obtain a0 a1 a2 a3 a4 a5 a6 where days: "days = [a0, a1, a2, a3, a4, a5, a6]"
    by (auto simp: length_Suc_conv eval_nat_numeral)
  from s(2) have t: "toordinal a0 = m0" "toordinal a1 = m0 + 1" "toordinal a2 = m0 + 2"
    "toordinal a3 = m0 + 3" "toordinal a4 = m0 + 4" "toordinal a5 = m0 + 5"
    "toordinal a6 = m0 + 6" by (simp_all add: days)
  show "days \<noteq> []" by (simp add: days)
  show "toordinal ` set days = {toordinal (hd days) .. toordinal (last days)}"
    by (auto simp: days t)
  have "distinct (map toordinal days)" by (simp add: days t)
  then show "inj_on toordinal (set days)" by (simp add: distinct_map)
  show "\<forall>d\<in>set days. fromordinal (toordinal d) = Inr d"
    using s(3) by (simp add: days t)
qed

lemma group_rows_Inr:
  assumes "\<forall>(d, r)\<in>set rows. d \<in> dom m"
  shows "group_rows m t rows =
     Inr (\<lambda>d. case m d of None \<Rightarrow> None
               | Some l \<Rightarrow> Some (l @ map snd (filter (\<lambda>(d', r). d' = d) rows)),
          foldl float_add t (map (\<lambda>(d, r). float_of_hours (te_hours r)) rows))"
  using assms
proof (induction rows arbitrary: m t)
  case Nil
  show ?case by (auto split: option.splits)
next
  case (Cons x rows)
  obtain d r where x: "x = (d, r)" by (cases x)
  from Cons.prems obtain l where l: "m d = Some l" by (auto simp: x)
  have "\<forall>(d', r')\<in>set rows. d' \<in> dom (m(d \<mapsto> l @ [r]))" using Cons.prems by auto
  note ih = Cons.IH [OF this, of "float_add t (float_of_hours (te_hours r))"]
  have step: "group_rows m t (x # rows)
      = group_rows (m(d \<mapsto> l @ [r])) (float_add t (float_of_hours (te_hours r))) rows"
    by (simp add: x l)
  have eq1: "(\<lambda>d'. case (m(d \<mapsto> l @ [r])) d' of None \<Rightarrow> None
               | Some l' \<Rightarrow> Some (l' @ map snd (filter (\<lambda>(d'', r). d'' = d') rows)))
           = (\<lambda>d'. case m d' of None \<Rightarrow> None
               | Some l' \<Rightarrow> Some (l' @ map snd (filter (\<lambda>(d'', r). d'' = d') (x # rows))))"
    by (rule ext) (auto simp: x l split: option.splits)
  have eq2: "foldl float_add (float_add t (float_of_hours (te_hours r)))
               (map (\<lambda>(d, r). float_of_hours (te_hours r)) rows)
           = foldl float_add t (map (\<lambda>(d, r). float_of_hours (te_hours r)) (x # rows))"
    by (simp add: x)
  show ?case unfolding step ih eq1 eq2 ..
qed

section \<open>The week view\<close>

lemma effective_week:
  "(if falsy year \<or> falsy week then (py_or year y, py_or week w) else (the year, the week))
     = (py_or year y, py_or week w)"
  by (auto simp: falsy_def py_or_def split: option.splits)

lemma map_of_empty_lists:
  "map_of (map (\<lambda>d. (d, [])) days) d = (if d \<in> set days then Some [] else None)"
  by (induction days) auto

lemma load_rows_week:
  assumes d: "iso_week_dates year week = Inr days"
    and r: "\<forall>r\<in>set rows. te_work_date r \<in> toordinal ` set days"
  shows "load_rows rows
           = Inr (map (\<lambda>r. (the_inv_into (set days) toordinal (te_work_date r), r)) rows)"
proof -
  note inj = week_ordinals(3) [OF d] and fo = week_ordinals(4) [OF d]
  have "(case fromordinal (te_work_date r) of Inl e \<Rightarrow> Inl e | Inr d \<Rightarrow> Inr (d, r))
          = Inr (the_inv_into (set days) toordinal (te_work_date r), r)"
    if "r \<in> set rows" for r
  proof -
    from r that obtain a where a: "a \<in> set days" "te_work_date r = toordinal a" by auto
    have "the_inv_into (set days) toordinal (toordinal a) = a"
      using inj a(1) by (rule the_inv_into_f_f)
    then show ?thesis using fo a by simp
  qed
  then have "map (\<lambda>r. case fromordinal (te_work_date r) of Inl e \<Rightarrow> Inl e
                        | Inr d \<Rightarrow> Inr (d, r)) rows
      = map Inr (map (\<lambda>r. (the_inv_into (set days) toordinal (te_work_date r), r)) rows)"
    by simp
  then show ?thesis unfolding load_rows_def by (simp only: collect_map_Inr)
qed

lemma aggregates:
  "COALESCE (BOOL_AND (map P rows)) False \<longleftrightarrow> rows \<noteq> [] \<and> (\<forall>r\<in>set rows. P r)"
  "COALESCE (BOOL_OR (map P rows)) False \<longleftrightarrow> (\<exists>r\<in>set rows. P r)"
  by (auto simp: COALESCE_def BOOL_AND_def BOOL_OR_def list_all_iff list_ex_iff)

lemma my_week_person_error:
  assumes "(if falsy person_id then pick_default_person_id s else Inr (the person_id)) = Inl e"
  shows "my_week today year week person_id s = Inl e"
  using assms by (cases today) (simp add: my_week_def effective_week)

lemma my_week_core:
  assumes p: "(if falsy person_id then pick_default_person_id s else Inr (the person_id)) = Inr p"
    and d: "iso_week_dates (py_or year (fst today)) (py_or week (snd today)) = Inr days"
  defines "in_range \<equiv> filter (\<lambda>r. te_person_id r = p \<and> te_work_date r \<in> toordinal ` set days)
                         (v2_time_entries s)"
  shows "\<exists>c. my_week today year week person_id s = Inr c
     \<and> ctx_person_id c = p
     \<and> ctx_year c = py_or year (fst today) \<and> ctx_week c = py_or week (snd today)
     \<and> ctx_days c = days
     \<and> ctx_total_hours c =
          foldl float_add (Finite 0)
            (map (\<lambda>r. float_of_hours (te_hours r))
               (sort_key (\<lambda>r. (te_work_date r, te_id r)) in_range))
     \<and> dom (ctx_by_day c) = set days
     \<and> (\<forall>a\<in>set days. ctx_by_day c a =
           Some (filter (\<lambda>r. te_work_date r = toordinal a)
                   (sort_key (\<lambda>r. (te_work_date r, te_id r)) in_range)))
     \<and> ctx_status_hint c =
          (if in_range = [] then ''draft''
           else if \<forall>r\<in>set in_range. te_status r = ''approved'' then ''approved''
           else if \<exists>r\<in>set in_range. te_status r = ''submitted'' then ''submitted''
           else ''draft'')"
proof -
  obtain y w where today: "today = (y, w)" by (cases today)
  define rows where "rows = sort_key (\<lambda>r. (te_work_date r, te_id r)) in_range"
  define g where "g = the_inv_into (set days) toordinal"
  define by_day where "by_day =
    (\<lambda>a. case map_of (map (\<lambda>d. (d, [])) days) a of None \<Rightarrow> None
          | Some l \<Rightarrow> Some (l @ map snd (filter (\<lambda>(d', r). d' = a)
                                 (map (\<lambda>r. (g (te_work_date r), r)) rows))))"
  note inj = week_ordinals(3) [OF d] and rng = week_ordinals(2) [OF d]
  have sel: "sql_select
       (\<lambda>r. te_person_id r = p \<and> toordinal (hd days) \<le> te_work_date r
            \<and> te_work_date r \<le> toordinal (last days)) (v2_time_entries s) = in_range"
    unfolding sql_select_def in_range_def rng by simp
  have in_week: "\<forall>r\<in>set rows. te_work_date r \<in> toordinal ` set days"
    by (simp add: rows_def in_range_def)
  have load: "load_rows rows = Inr (map (\<lambda>r. (g (te_work_date r), r)) rows)"
    unfolding g_def by (rule load_rows_week [OF d in_week])
  have g_in: "g (te_work_date r) \<in> set days" if "r \<in> set rows" for r
  proof -
    from in_week that obtain a where "a \<in> set days" "te_work_date r = toordinal a" by auto
    then show ?thesis using the_inv_into_f_f [OF inj] by (simp add: g_def)
  qed
  have g_eq: "g (te_work_date r) = a \<longleftrightarrow> te_work_date r = toordinal a"
    if "r \<in> set rows" "a \<in> set days" for r a
  proof -
    from in_week that obtain b where b: "b \<in> set days" "te_work_date r = toordinal b" by auto
    then have "g (te_work_date r) = b" using the_inv_into_f_f [OF inj] by (simp add: g_def)
    then show ?thesis using b that(2) inj by (auto dest: inj_onD)
  qed
  have keys: "\<forall>(a, r)\<in>set (map (\<lambda>r. (g (te_work_date r), r)) rows).
      a \<in> dom (map_of (map (\<lambda>d. (d, [])) days))"
    using g_in by (auto simp: map_of_empty_lists dom_def)
  have grp: "group_rows (map_of (map (\<lambda>d. (d, [])) days)) (Finite 0)
        (map (\<lambda>r. (g (te_work_date r), r)) rows)
      = Inr (by_day, foldl float_add (Finite 0) (map (\<lambda>r. float_of_hours (te_hours r)) rows))"
    unfolding group_rows_Inr [OF keys] by_day_def
    by (simp add: o_def)
  have dom: "dom by_day = set days"
    by (auto simp: by_day_def map_of_empty_lists dom_def split: if_splits option.splits)
  have day: "by_day a = Some (filter (\<lambda>r. te_work_date r = toordinal a) rows)"
    if "a \<in> set days" for a
  proof -
    have "map snd (filter (\<lambda>(d', r). d' = a) (map (\<lambda>r. (g (te_work_date r), r)) rows))
        = filter (\<lambda>r. g (te_work_date r) = a) rows"
      by (induction rows) auto
    also have "\<dots> = filter (\<lambda>r. te_work_date r = toordinal a) rows"
      using g_eq that by (intro filter_cong) auto
    finally show ?thesis using that by (simp add: by_day_def map_of_empty_lists)
  qed
  have "my_week today year week person_id s =
      Inr \<lparr>ctx_year = py_or year y, ctx_week = py_or week w, ctx_days = days,
           ctx_by_day = by_day, ctx_person_id = p,
           ctx_total_hours =
             foldl float_add (Finite 0) (map (\<lambda>r. float_of_hours (te_hours r)) rows),
           ctx_status_hint =
             (if in_range \<noteq> [] \<and> (\<forall>r\<in>set in_range. te_status r = ''approved'')
              then ''approved''
              else if \<exists>r\<in>set in_range. te_status r = ''submitted'' then ''submitted''
              else ''draft'')\<rparr>"
    using p d
    by (simp add: my_week_def today effective_week Let_def sel rows_def [symmetric] load grp
        aggregates)
  then show ?thesis using dom day by (auto simp: today rows_def)
qed

section \<open>Statements on tables\<close>

lemma sql_update_none: "\<forall>r\<in>set rows. \<not> cond r \<Longrightarrow> sql_update cond f rows = rows"
  by (simp add: sql_update_def map_idI)

lemma sql_delete_none: "\<forall>r\<in>set rows. \<not> cond r \<Longrightarrow> sql_delete cond rows = rows"
  by (simp add: sql_delete_def)

lemma sql_update_idem:
  "(\<And>r. cond r \<Longrightarrow> \<not> cond (f r)) \<Longrightarrow>
     sql_update cond f (sql_update cond f rows) = sql_update cond f rows"
  by (simp add: sql_update_def)

lemma sql_update_status:
  assumes "\<forall>e\<in>set rows. te_status e \<in> {''draft'', ''submitted'', ''approved''}"
    and "v \<in> {''draft'', ''submitted'', ''approved''}"
  shows "\<forall>e\<in>set (sql_update cond (\<lambda>r. r\<lparr>te_status := v\<rparr>) rows).
           te_status e \<in> {''draft'', ''submitted'', ''approved''}"
  using assms by (auto simp: sql_update_def)

lemma hd_sort_Min:
  fixes xs :: "int list"
  assumes "sort xs = y # ys"
  shows "y = Min (set xs)"
proof -
  have s: "sorted (y # ys)" using assms by (metis sorted_sort)
  have e: "set xs = set (y # ys)" using assms by (metis set_sort)
  have "Min (set (y # ys)) = y"
    by (rule Min_eqI) (use s in auto)
  with e show ?thesis by simp
qed

lemma pick_default_person_id_eq:
  "pick_default_person_id s =
     (if v2_people s = [] then Inl (RuntimeError ''No v2_people in DB'')
      else Inr (Min (set (map p_id (v2_people s)))))"
proof (cases "sort (map p_id (v2_people s))")
  case Nil
  then have "map p_id (v2_people s) = []" by (metis length_sort length_0_conv)
  with Nil show ?thesis by (simp add: pick_default_person_id_def)
next
  case (Cons y ys)
  then have "v2_people s \<noteq> []" by auto
  with Cons hd_sort_Min [OF Cons] show ?thesis by (simp add: pick_default_person_id_def)
qed

section \<open>Adding an entry: the column types\<close>

lemma numeric_5_2_nonneg:
  assumes "0 \<le> x"
  shows "numeric_5_2 x = (if 199999 / 200 \<le> x then Inl NumericValueOutOfRange
                          else Inr (of_int \<lfloor>x * 100 + 1 / 2\<rfloor> / 100))"
    and "(0::rat) \<le> of_int \<lfloor>x * 100 + 1 / 2\<rfloor> / 100"
proof -
  define k where "k = \<lfloor>x * 100 + 1 / 2\<rfloor>"
  have k0: "0 \<le> k" using assms by (simp add: k_def)
  have "100000 \<le> k \<longleftrightarrow> of_int 100000 \<le> x * 100 + 1 / 2"
    unfolding k_def by (rule le_floor_iff)
  also have "\<dots> \<longleftrightarrow> 199999 / 200 \<le> x" by (simp add: field_simps) 
  finally have big: "100000 \<le> k \<longleftrightarrow> 199999 / 200 \<le> x" .
  have r0: "(0::rat) \<le> of_int k / 100" using k0 by simp
  have "(1000::rat) \<le> of_int k / 100 \<longleftrightarrow> (100000::rat) \<le> of_int k" by (simp add: field_simps)
  also have "\<dots> \<longleftrightarrow> 100000 \<le> k" by (metis of_int_le_iff of_int_numeral)
  finally have "(1000::rat) \<le> \<bar>of_int k / 100\<bar> \<longleftrightarrow> 199999 / 200 \<le> x"
    using r0 big by (simp add: abs_of_nonneg)
  then show "numeric_5_2 x = (if 199999 / 200 \<le> x then Inl NumericValueOutOfRange
                          else Inr (of_int \<lfloor>x * 100 + 1 / 2\<rfloor> / 100))"
    using assms unfolding numeric_5_2_def Let_def k_def [symmetric] by simp
  show "(0::rat) \<le> of_int \<lfloor>x * 100 + 1 / 2\<rfloor> / 100" using r0 by (simp add: k_def)
qed

lemma numeric_5_2_neg:
  assumes "x < 0"
  shows "numeric_5_2 x = (if x \<le> - (199999 / 200) then Inl NumericValueOutOfRange
                          else Inr (- (of_int \<lfloor>- x * 100 + 1 / 2\<rfloor> / 100)))"
    and "- (of_int \<lfloor>- x * 100 + 1 / 2\<rfloor> / 100) < (0::rat) \<longleftrightarrow> x \<le> - (1 / 200)"
proof -
  define k where "k = \<lfloor>- x * 100 + 1 / 2\<rfloor>"
  have k0: "0 \<le> k" using assms by (simp add: k_def)
  have "100000 \<le> k \<longleftrightarrow> of_int 100000 \<le> - x * 100 + 1 / 2"
    unfolding k_def by (rule le_floor_iff)
  also have "\<dots> \<longleftrightarrow> x \<le> - (199999 / 200)" by (simp add: field_simps) linarith
  finally have big: "100000 \<le> k \<longleftrightarrow> x \<le> - (199999 / 200)" .
  have "1 \<le> k \<longleftrightarrow> of_int 1 \<le> - x * 100 + 1 / 2"
    unfolding k_def by (rule le_floor_iff)
  also have "\<dots> \<longleftrightarrow> x \<le> - (1 / 200)" by (simp add: field_simps) linarith
  finally have one: "1 \<le> k \<longleftrightarrow> x \<le> - (1 / 200)" .
  have r0: "(0::rat) \<le> of_int k / 100" using k0 by simp
  have "(1000::rat) \<le> of_int k / 100 \<longleftrightarrow> (100000::rat) \<le> of_int k" by (simp add: field_simps)
  also have "\<dots> \<longleftrightarrow> 100000 \<le> k" by (metis of_int_le_iff of_int_numeral)
  finally have "(1000::rat) \<le> \<bar>- (of_int k / 100)\<bar> \<longleftrightarrow> x \<le> - (199999 / 200)"
    using r0 big by (simp add: abs_of_nonneg)
  then show "numeric_5_2 x = (if x \<le> - (199999 / 200) then Inl NumericValueOutOfRange
                          else Inr (- (of_int \<lfloor>- x * 100 + 1 / 2\<rfloor> / 100)))"
    using assms unfolding numeric_5_2_def Let_def k_def [symmetric] by simp
  have "- (of_int k / 100) < (0::rat) \<longleftrightarrow> (0::rat) < of_int k" by simp
  also have "\<dots> \<longleftrightarrow> 1 \<le> k" by (simp add: int_one_le_iff_zero_less)
  finally show "- (of_int \<lfloor>- x * 100 + 1 / 2\<rfloor> / 100) < (0::rat) \<longleftrightarrow> x \<le> - (1 / 200)"
    using one by (simp add: k_def)
qed

lemma numeric_5_2_rejects:
  "hours \<le> - (1 / 200) \<or> 199999 / 200 \<le> hours \<longleftrightarrow>
     (\<exists>e. numeric_5_2 hours = Inl e) \<or> (\<exists>h. numeric_5_2 hours = Inr h \<and> \<not> 0 \<le> h)"
proof (cases "0 \<le> hours")
  case True
  define r :: rat where "r = of_int \<lfloor>hours * 100 + 1 / 2\<rfloor> / 100"
  note a = numeric_5_2_nonneg [OF True, folded r_def]
  show ?thesis
  proof (cases "199999 / 200 \<le> hours")
    case big: True
    then show ?thesis by (simp add: a(1))
  next
    case False
    with True a(2) show ?thesis by (simp add: a(1))
  qed
next
  case False
  then have n: "hours < 0" by simp
  define r :: rat where "r = - (of_int \<lfloor>- hours * 100 + 1 / 2\<rfloor> / 100)"
  note a = numeric_5_2_neg [OF n, folded r_def]
  show ?thesis
  proof (cases "hours \<le> - (199999 / 200)")
    case big: True
    then show ?thesis by (simp add: a(1))
  next
    case False
    with n a(2) show ?thesis by (simp add: a(1) not_le)
  qed
qed

section \<open>Adding an entry: the outcomes\<close>

lemma time_add_unchanged:
  "v2_people (snd (time_add person_id work_date project_id hours notes s)) = v2_people s"
  "v2_projects (snd (time_add person_id work_date project_id hours notes s)) = v2_projects s"
  "fst (time_add person_id work_date project_id hours notes s) \<noteq> None \<Longrightarrow>
     v2_time_entries (snd (time_add person_id work_date project_id hours notes s))
       = v2_time_entries s"
  by (auto simp: time_add_def Let_def split: sum.splits option.splits if_splits)

lemma time_add_None:
  assumes "fst (time_add person_id work_date project_id hours notes s) = None"
  shows "\<exists>wd h. work_date = Inr wd \<and> hours_in hours = Inr h \<and> hours_check h
     \<and> v2_time_entries (snd (time_add person_id work_date project_id hours notes s))
         = v2_time_entries s @
             [\<lparr>te_id = v2_time_entries_id_seq s + 1, te_person_id = person_id,
               te_project_id = project_id, te_work_date = wd, te_hours = h,
               te_notes = notes, te_status = ''draft''\<rparr>]"
  using assms
  by (auto simp: time_add_def Let_def split: sum.splits option.splits if_splits)

lemma time_add_fails_iff:
  "fst (time_add person_id work_date project_id hours notes s) \<noteq> None \<longleftrightarrow>
     (\<exists>t. notes = Some t \<and> CHR 0x00 \<in> set t)
     \<or> (\<exists>e. work_date = Inl e)
     \<or> \<not> int8 person_id \<or> (\<exists>p. project_id = Some p \<and> \<not> int8 p)
     \<or> ((\<exists>e. hours_in hours = Inl e) \<or> (\<exists>h. hours_in hours = Inr h \<and> \<not> hours_check h))
     \<or> v2_time_entries_id_seq s + 1 \<in> set (map te_id (v2_time_entries s))
     \<or> person_id \<notin> set (map p_id (v2_people s))
     \<or> (\<exists>p. project_id = Some p \<and> p \<notin> set (map pr_id (v2_projects s)))"
proof (cases "hours_in hours")
  case (Inl e)
  then show ?thesis
    by (cases "notes"; cases work_date; cases project_id) (auto simp: time_add_def)
next
  case (Inr h)
  then show ?thesis
    by (cases "notes"; cases work_date; cases project_id) (auto simp: time_add_def Let_def)
qed

section \<open>Numbers: the leading digit and rounding\<close>

lemma ilog_bounds:
  assumes "2 \<le> b" "1 \<le> n"
  shows "0 \<le> ilog b n \<and> b ^ nat (ilog b n) \<le> n \<and> n < b * b ^ nat (ilog b n)"
  using assms
proof (induction b n rule: ilog.induct)
  case (1 b n)
  show ?case
  proof (cases "n < b")
    case True
    then have e: "ilog b n = 0" by (subst ilog.simps) simp
    show ?thesis using True "1.prems" by (simp add: e)
  next
    case False
    with "1.prems" have c: "\<not> (b < 2 \<or> n < b)" by simp
    then have e: "ilog b n = ilog b (n div b) + 1" by (subst ilog.simps) simp
    define d where "d = n div b"
    define k where "k = ilog b d"
    have "0 < n div b" using False "1.prems"(1) by (simp add: pos_imp_zdiv_pos_iff)
    then have d1: "1 \<le> d" by (simp add: d_def)
    from "1.IH" [OF c "1.prems"(1)] d1
    have ih: "0 \<le> k" "b ^ nat k \<le> d" "d < b * b ^ nat k" by (simp_all add: d_def k_def)
    have m: "b * d + n mod b = n" unfolding d_def by (rule mult_div_mod_eq)
    have r: "0 \<le> n mod b" "n mod b < b" using "1.prems"(1) by simp_all
    have n: "b * d \<le> n" "n < b * (d + 1)"
      using m r by (simp_all add: distrib_left)
    have s: "nat (k + 1) = Suc (nat k)" using ih(1) by simp
    have "b * b ^ nat k \<le> b * d" using ih(2) "1.prems"(1) by (simp add: mult_left_mono)
    then have lo: "b ^ nat (k + 1) \<le> n" using n(1) by (simp add: s)
    have "d + 1 \<le> b * b ^ nat k" using ih(3) by simp
    then have "b * (d + 1) \<le> b * (b * b ^ nat k)" using "1.prems"(1) by (simp add: mult_left_mono)
    then have hi: "n < b * b ^ nat (k + 1)" using n(2) by (simp add: s)
    show ?thesis using ih(1) lo hi by (simp add: e d_def [symmetric] k_def [symmetric])
  qed
qed

lemma floor_log_bounds:
  fixes x :: rat
  assumes b: "2 \<le> b" and x: "x \<noteq> 0"
  shows "of_int b powi floor_log b x \<le> \<bar>x\<bar>" and "\<bar>x\<bar> < of_int b powi (floor_log b x + 1)"
proof -
  have b0: "(0::rat) < of_int b" using b by simp
  have "of_int b powi floor_log b x \<le> \<bar>x\<bar> \<and> \<bar>x\<bar> < of_int b powi (floor_log b x + 1)"
  proof (cases "1 \<le> \<bar>x\<bar>")
    case True
    define n where "n = \<lfloor>\<bar>x\<bar>\<rfloor>"
    define k where "k = ilog b n"
    have n1: "1 \<le> n" using True by (simp add: n_def le_floor_iff)
    note i = ilog_bounds [OF b n1, folded k_def]
    have fl: "floor_log b x = k" using True by (simp add: floor_log_def n_def k_def)
    have "of_int b powi k = (of_int (b ^ nat k) :: rat)"
      using i by (simp add: power_int_nonneg_exp)
    also have "\<dots> \<le> of_int n" using i by (simp only: of_int_le_iff)
    also have "\<dots> \<le> \<bar>x\<bar>" by (simp add: n_def)
    finally have lo: "of_int b powi k \<le> \<bar>x\<bar>" .
    have "\<bar>x\<bar> < of_int (n + 1)" unfolding n_def by linarith
    also have "\<dots> \<le> (of_int (b * b ^ nat k) :: rat)"
      using i by (simp only: of_int_le_iff) simp
    also have "\<dots> = of_int b powi (k + 1)"
      using i by (simp add: power_int_nonneg_exp nat_add_distrib)
    finally have hi: "\<bar>x\<bar> < of_int b powi (k + 1)" .
    show ?thesis using lo hi by (simp add: fl)
  next
    case False
    define y where "y = 1 / \<bar>x\<bar>"
    define n where "n = \<lceil>y\<rceil> - 1"
    define k where "k = ilog b n"
    have x0: "0 < \<bar>x\<bar>" using x by simp
    have y1: "1 < y" using False x0 by (simp add: y_def)
    have n1: "1 \<le> n" using y1 unfolding n_def by linarith
    have ny: "of_int n < y" "y \<le> of_int n + 1" unfolding n_def by linarith+
    note i = ilog_bounds [OF b n1, folded k_def]
    have fl: "floor_log b x = - (k + 1)" using False by (simp add: floor_log_def n_def k_def y_def)
    have p0: "(0::rat) < of_int b ^ nat k" using b0 by simp
    have "(of_int b ^ nat k :: rat) = of_int (b ^ nat k)" by simp
    also have "\<dots> \<le> of_int n" using i by (simp only: of_int_le_iff)
    also have "\<dots> < y" by (rule ny)
    finally have "(of_int b ^ nat k :: rat) < 1 / \<bar>x\<bar>" by (simp add: y_def)
    then have "\<bar>x\<bar> < 1 / of_int b ^ nat k" using x0 p0 by (simp add: field_simps)
    also have "\<dots> = of_int b powi (- (k + 1) + 1)"
      using i by (simp add: power_int_minus_divide power_int_nonneg_exp)
    finally have hi: "\<bar>x\<bar> < of_int b powi (- (k + 1) + 1)" .
    have "y \<le> of_int (n + 1)" using ny by simp
    also have "\<dots> \<le> (of_int (b * b ^ nat k) :: rat)"
      using i by (simp only: of_int_le_iff) simp
    also have "\<dots> = of_int b ^ nat (k + 1)" using i by (simp add: nat_add_distrib)
    finally have "1 / \<bar>x\<bar> \<le> of_int b ^ nat (k + 1)" by (simp add: y_def)
    moreover have "(0::rat) < of_int b ^ nat (k + 1)" using b0 by simp
    ultimately have "1 / of_int b ^ nat (k + 1) \<le> \<bar>x\<bar>" using x0 by (simp add: field_simps)
    moreover have "of_int b powi (- (k + 1)) = (1 / of_int b ^ nat (k + 1) :: rat)"
      unfolding power_int_minus_divide [of _ "k + 1"] using i by (simp add: power_int_nonneg_exp)
    ultimately have lo: "of_int b powi (- (k + 1)) \<le> \<bar>x\<bar>" by simp
    show ?thesis using lo hi by (simp add: fl)
  qed
  then show "of_int b powi floor_log b x \<le> \<bar>x\<bar>" and "\<bar>x\<bar> < of_int b powi (floor_log b x + 1)"
    by simp_all
qed

lemma round_half_even_cases:
  obtains f where "round_half_even y = f" "of_int f - 1 / 2 < y" "y < of_int f + 1 / 2"
  | f where "round_half_even y = f" "y = of_int f - 1 / 2" "even f"
  | f where "round_half_even y = f" "y = of_int f + 1 / 2" "even f"
proof -
  define g where "g = \<lfloor>y\<rfloor>"
  define d where "d = y - of_int g"
  have d: "0 \<le> d" "d < 1" "y = of_int g + d" unfolding d_def g_def by linarith+
  consider "d < 1 / 2" | "1 / 2 < d" | "d = 1 / 2" "even g" | "d = 1 / 2" "odd g" by fastforce
  then show ?thesis
  proof cases
    case 1
    then have "round_half_even y = g" by (simp add: round_half_even_def Let_def g_def d_def)
    moreover have "of_int g - 1 / 2 < y" "y < of_int g + 1 / 2" using d 1 by simp_all
    ultimately show ?thesis by (rule that(1))
  next
    case 2
    then have "round_half_even y = g + 1" by (simp add: round_half_even_def Let_def g_def d_def)
    moreover have "of_int (g + 1) - 1 / 2 < y" "y < of_int (g + 1) + 1 / 2" using d 2 by simp_all
    ultimately show ?thesis by (rule that(1))
  next
    case 3
    then have "round_half_even y = g" by (simp add: round_half_even_def Let_def g_def d_def)
    moreover have "y = of_int g + 1 / 2" using d 3 by simp
    ultimately show ?thesis using 3(2) by (rule that(3))
  next
    case 4
    then have "round_half_even y = g + 1" by (simp add: round_half_even_def Let_def g_def d_def)
    moreover have "y = of_int (g + 1) - 1 / 2" using d 4 by simp
    moreover have "even (g + 1)" using 4(2) by simp
    ultimately show ?thesis by (rule that(2))
  qed
qed

lemma round_half_even_le_iff:
  assumes "even N"
  shows "round_half_even y \<le> N \<longleftrightarrow> y \<le> of_int N + 1 / 2"
proof (cases y rule: round_half_even_cases)
  case (1 f)
  have "f \<le> N \<longleftrightarrow> y \<le> of_int N + 1 / 2"
  proof
    assume "f \<le> N"
    then have "(of_int f :: rat) \<le> of_int N" by (simp only: of_int_le_iff)
    with 1(3) show "y \<le> of_int N + 1 / 2" by simp
  next
    assume a: "y \<le> of_int N + 1 / 2"
    show "f \<le> N"
    proof (rule ccontr)
      assume "\<not> f \<le> N"
      then have "N + 1 \<le> f" by simp
      then have "(of_int (N + 1) :: rat) \<le> of_int f" by (simp only: of_int_le_iff)
      with 1(2) a show False by simp
    qed
  qed
  then show ?thesis unfolding 1(1) by simp
next
  case (2 f)
  from 2(3) assms have "f \<noteq> N + 1" by auto
  then have "f \<le> N \<longleftrightarrow> f \<le> N + 1" by auto
  also have "\<dots> \<longleftrightarrow> (of_int f :: rat) \<le> of_int (N + 1)" by (simp only: of_int_le_iff)
  also have "\<dots> \<longleftrightarrow> y \<le> of_int N + 1 / 2" by (simp add: 2(2) algebra_simps)
  finally show ?thesis unfolding 2(1) by simp
next
  case (3 f)
  have "round_half_even y \<le> N \<longleftrightarrow> f \<le> N" by (simp only: 3(1))
  also have "\<dots> \<longleftrightarrow> y \<le> of_int N + 1 / 2" unfolding 3(2) by simp
  finally show ?thesis .
qed


lemma round_half_even_ge_iff:
  assumes "even M"
  shows "M \<le> round_half_even y \<longleftrightarrow> of_int M - 1 / 2 \<le> y"
proof (cases y rule: round_half_even_cases)
  case (1 f)
  have "M \<le> f \<longleftrightarrow> of_int M - 1 / 2 \<le> y"
  proof
    assume "M \<le> f"
    then have "(of_int M :: rat) \<le> of_int f" by (simp only: of_int_le_iff)
    with 1(2) show "of_int M - 1 / 2 \<le> y" by simp
  next
    assume a: "of_int M - 1 / 2 \<le> y"
    show "M \<le> f"
    proof (rule ccontr)
      assume "\<not> M \<le> f"
      then have "f + 1 \<le> M" by simp
      then have "(of_int (f + 1) :: rat) \<le> of_int M" by (simp only: of_int_le_iff)
      with 1(3) a show False by simp
    qed
  qed
  then show ?thesis unfolding 1(1) by simp
next
  case (2 f)
  have "M \<le> round_half_even y \<longleftrightarrow> M \<le> f" by (simp only: 2(1))
  also have "\<dots> \<longleftrightarrow> of_int M - 1 / 2 \<le> y" unfolding 2(2) by simp
  finally show ?thesis .
next
  case (3 f)
  from 3(3) assms have "M \<noteq> f + 1" by auto
  then have "M \<le> f \<longleftrightarrow> M \<le> f + 1" by auto
  also have "\<dots> \<longleftrightarrow> (of_int M :: rat) \<le> of_int (f + 1)" by (simp only: of_int_le_iff)
  also have "\<dots> \<longleftrightarrow> of_int M - 1 / 2 \<le> y" by (simp add: 3(2) algebra_simps)
  finally show ?thesis unfolding 3(1) by simp
qed

lemma round_half_even_mono_int:
  "of_int a \<le> y \<Longrightarrow> a \<le> round_half_even y"
  "y \<le> of_int a \<Longrightarrow> round_half_even y \<le> a"
proof -
  show "a \<le> round_half_even y" if "of_int a \<le> y"
  proof (cases y rule: round_half_even_cases)
    case (1 f)
    have "\<not> f + 1 \<le> a"
    proof
      assume "f + 1 \<le> a"
      then have "(of_int (f + 1) :: rat) \<le> of_int a" by (simp only: of_int_le_iff)
      with 1(3) that show False by simp
    qed
    then show ?thesis unfolding 1(1) by simp
  next
    case (2 f)
    have "\<not> f \<le> a - 1"
    proof
      assume "f \<le> a - 1"
      then have "(of_int f :: rat) \<le> of_int (a - 1)" by (simp only: of_int_le_iff)
      with 2(2) \<open>of_int a \<le> y\<close> show False by simp
    qed
    then show ?thesis unfolding 2(1) by simp
  next
    case (3 f)
    have "\<not> f + 1 \<le> a"
    proof
      assume "f + 1 \<le> a"
      then have "(of_int (f + 1) :: rat) \<le> of_int a" by (simp only: of_int_le_iff)
      with 3(2) that show False by simp
    qed
    then show ?thesis unfolding 3(1) by simp
  qed
  show "round_half_even y \<le> a" if "y \<le> of_int a"
  proof (cases y rule: round_half_even_cases)
    case (1 f)
    have "\<not> a + 1 \<le> f"
    proof
      assume "a + 1 \<le> f"
      then have "(of_int (a + 1) :: rat) \<le> of_int f" by (simp only: of_int_le_iff)
      with 1(2) that show False by simp
    qed
    then show ?thesis unfolding 1(1) by simp
  next
    case (2 f)
    have "\<not> a + 1 \<le> f"
    proof
      assume "a + 1 \<le> f"
      then have "(of_int (a + 1) :: rat) \<le> of_int f" by (simp only: of_int_le_iff)
      with 2(2) that show False by simp
    qed
    then show ?thesis unfolding 2(1) by simp
  next
    case (3 f)
    have "\<not> a + 1 \<le> f"
    proof
      assume "a + 1 \<le> f"
      then have "(of_int (a + 1) :: rat) \<le> of_int f" by (simp only: of_int_le_iff)
      with 3(2) that show False by simp
    qed
    then show ?thesis unfolding 3(1) by simp
  qed
qed

section \<open>Numbers: the hours that the column refuses\<close>

text \<open>
  The rendering with 15 significant digits stays in the decade of the number, so its
  comparison with a decimal of few digits is a comparison of the number itself with a
  bound half a unit of the 15th digit away: the hours fall below \<open>-0.005\<close> from
  \<open>-0.004999999999999995\<close> on, and reach \<open>999.995\<close> from \<open>999.9949999999995\<close> on.
\<close>

lemma float8_numeric_decade:
  assumes x: "x \<noteq> 0"
  defines "e \<equiv> floor_log 10 x"
  defines "q \<equiv> (10::rat) powi (e - 14)"
  shows "float8_numeric x = of_int (round_half_even (x / q)) * q"
    and "0 < x \<Longrightarrow> 10 powi e \<le> float8_numeric x \<and> float8_numeric x \<le> 10 powi (e + 1)"
    and "x < 0 \<Longrightarrow> - (10 powi (e + 1)) \<le> float8_numeric x \<and> float8_numeric x \<le> - (10 powi e)"
    and "10 powi e \<le> \<bar>x\<bar>" and "\<bar>x\<bar> < 10 powi (e + 1)"
proof -
  have q0: "0 < q" by (simp add: q_def)
  show f: "float8_numeric x = of_int (round_half_even (x / q)) * q"
    using x by (simp add: float8_numeric_def round_to_def q_def e_def)
  have "(10::rat) powi (14 + (e - 14)) = 10 powi 14 * 10 powi (e - 14)"
    by (rule power_int_add) simp
  then have lo: "(10::rat) powi e = 100000000000000 * q" by (simp add: q_def)
  have "(10::rat) powi (15 + (e - 14)) = 10 powi 15 * 10 powi (e - 14)"
    by (rule power_int_add) simp
  then have hi: "(10::rat) powi (e + 1) = 1000000000000000 * q"
    by (simp add: q_def add.commute)
  from floor_log_bounds [of 10 x] x
  show b: "10 powi e \<le> \<bar>x\<bar>" "\<bar>x\<bar> < 10 powi (e + 1)" by (simp_all add: e_def)
  show "10 powi e \<le> float8_numeric x \<and> float8_numeric x \<le> 10 powi (e + 1)" if "0 < x"
  proof -
    from b that have "100000000000000 * q \<le> x" "x \<le> 1000000000000000 * q"
      by (simp_all add: lo hi)
    then have "of_int 100000000000000 \<le> x / q" "x / q \<le> of_int 1000000000000000"
      using q0 by (simp_all add: field_simps)
    then have "100000000000000 \<le> round_half_even (x / q)"
      "round_half_even (x / q) \<le> 1000000000000000"
      by (simp_all add: round_half_even_mono_int)
    then have "(of_int 100000000000000 :: rat) \<le> of_int (round_half_even (x / q))"
      "(of_int (round_half_even (x / q)) :: rat) \<le> of_int 1000000000000000"
      by (simp_all only: of_int_le_iff)
    then have "100000000000000 * q \<le> of_int (round_half_even (x / q)) * q"
      "of_int (round_half_even (x / q)) * q \<le> 1000000000000000 * q"
      using q0 by simp_all
    then show ?thesis by (simp add: f lo hi)
  qed
  show "- (10 powi (e + 1)) \<le> float8_numeric x \<and> float8_numeric x \<le> - (10 powi e)" if "x < 0"
  proof -
    from b that have "x \<le> - 100000000000000 * q" "- 1000000000000000 * q \<le> x"
      by (simp_all add: lo hi)
    then have "x / q \<le> of_int (- 100000000000000)" "of_int (- 1000000000000000) \<le> x / q"
      using q0 by (simp_all add: field_simps)
    then have "round_half_even (x / q) \<le> - 100000000000000"
      "- 1000000000000000 \<le> round_half_even (x / q)"
      by (simp_all add: round_half_even_mono_int)
    then have "(of_int (round_half_even (x / q)) :: rat) \<le> of_int (- 100000000000000)"
      "(of_int (- 1000000000000000) :: rat) \<le> of_int (round_half_even (x / q))"
      by (simp_all only: of_int_le_iff)
    then have "of_int (round_half_even (x / q)) * q \<le> of_int (- 100000000000000) * q"
      "of_int (- 1000000000000000) * q \<le> of_int (round_half_even (x / q)) * q"
      using q0 by (simp_all only: mult_le_cancel_right_pos)
    then show ?thesis by (simp add: f lo hi)
  qed
qed

lemma float8_numeric_0: "float8_numeric 0 = 0"
  by (simp add: float8_numeric_def)

lemma float8_numeric_low:
  "float8_numeric x \<le> - (1 / 200) \<longleftrightarrow> x \<le> - (1 / 200) + 1 / 200000000000000000"
proof -
  consider "x = 0" | "0 < x" | "x < 0" by linarith
  then show ?thesis
  proof cases
    case 1
    then show ?thesis by (simp add: float8_numeric_0)
  next
    case 2
    then have x: "x \<noteq> 0" by simp
    have "(0::rat) < 10 powi floor_log 10 x" by simp
    with float8_numeric_decade(2) [OF x 2] have "0 < float8_numeric x" by linarith
    with 2 show ?thesis by simp
  next
    case 3
    then have x: "x \<noteq> 0" by simp
    define e where "e = floor_log 10 x"
    note d = float8_numeric_decade [OF x, folded e_def]
    consider "- 2 \<le> e" | "e = - 3" | "e + 1 \<le> - 3" by linarith
    then show ?thesis
    proof cases
      case 1
      then have "(10::rat) powi (- 2) \<le> 10 powi e" by (intro power_int_increasing) simp_all
      then have p: "1 / 100 \<le> (10::rat) powi e" by simp
      from d(3) [OF 3] p have "float8_numeric x \<le> - (1 / 100)" by linarith
      moreover from d(4) p 3 have "x \<le> - (1 / 100)" by linarith
      ultimately show ?thesis by simp
    next
      case 2
      have q: "(10::rat) powi (e - 14) = 1 / 100000000000000000" by (simp add: 2)
      define r where "r = round_half_even (x * 100000000000000000)"
      have f: "float8_numeric x = of_int r / 100000000000000000"
        using d(1) by (simp add: q r_def)
      have "float8_numeric x \<le> - (1 / 200) \<longleftrightarrow> (of_int r :: rat) \<le> of_int (- 500000000000000)"
        by (simp add: f field_simps)
      also have "\<dots> \<longleftrightarrow> r \<le> - 500000000000000" by (simp only: of_int_le_iff)
      also have "\<dots> \<longleftrightarrow> x * 100000000000000000 \<le> of_int (- 500000000000000) + 1 / 2"
        unfolding r_def by (rule round_half_even_le_iff) simp
      also have "\<dots> \<longleftrightarrow> x \<le> - (1 / 200) + 1 / 200000000000000000"
        by (simp add: field_simps)
      finally show ?thesis .
    next
      case 3
      then have "(10::rat) powi (e + 1) \<le> 10 powi (- 3)" by (intro power_int_increasing) simp_all
      then have p: "(10::rat) powi (e + 1) \<le> 1 / 1000" by simp
      from d(3) [OF \<open>x < 0\<close>] p have "- (1 / 1000) \<le> float8_numeric x" by linarith
      moreover from d(5) p \<open>x < 0\<close> have "- (1 / 1000) < x" by linarith
      ultimately show ?thesis by simp
    qed
  qed
qed

lemma float8_numeric_high:
  "199999 / 200 \<le> float8_numeric x \<longleftrightarrow> 199999 / 200 - 1 / 2000000000000 \<le> x"
proof -
  consider "x = 0" | "x < 0" | "0 < x" by linarith
  then show ?thesis
  proof cases
    case 1
    then show ?thesis by (simp add: float8_numeric_0)
  next
    case 2
    then have x: "x \<noteq> 0" by simp
    have "(0::rat) < 10 powi floor_log 10 x" by simp
    with float8_numeric_decade(3) [OF x 2] have "float8_numeric x < 0" by linarith
    with 2 show ?thesis by simp
  next
    case 3
    then have x: "x \<noteq> 0" by simp
    define e where "e = floor_log 10 x"
    note d = float8_numeric_decade [OF x, folded e_def]
    consider "3 \<le> e" | "e = 2" | "e + 1 \<le> 2" by linarith
    then show ?thesis
    proof cases
      case 1
      then have "(10::rat) powi 3 \<le> 10 powi e" by (intro power_int_increasing) simp_all
      then have p: "1000 \<le> (10::rat) powi e" by simp
      from d(2) [OF 3] p have "1000 \<le> float8_numeric x" by linarith
      moreover from d(4) p 3 have "1000 \<le> x" by linarith
      ultimately show ?thesis by simp
    next
      case 2
      have q: "(10::rat) powi (e - 14) = 1 / 1000000000000" by (simp add: 2)
      define r where "r = round_half_even (x * 1000000000000)"
      have f: "float8_numeric x = of_int r / 1000000000000"
        using d(1) by (simp add: q r_def)
      have "199999 / 200 \<le> float8_numeric x \<longleftrightarrow> (of_int 999995000000000 :: rat) \<le> of_int r"
        by (simp add: f field_simps)
      also have "\<dots> \<longleftrightarrow> 999995000000000 \<le> r" by (simp only: of_int_le_iff)
      also have "\<dots> \<longleftrightarrow> of_int 999995000000000 - 1 / 2 \<le> x * 1000000000000"
        unfolding r_def by (rule round_half_even_ge_iff) simp
      also have "\<dots> \<longleftrightarrow> 199999 / 200 - 1 / 2000000000000 \<le> x"
        by (simp add: field_simps)
      finally show ?thesis .
    next
      case 3
      then have "(10::rat) powi (e + 1) \<le> 10 powi 2" by (intro power_int_increasing) simp_all
      then have p: "(10::rat) powi (e + 1) \<le> 100" by simp
      from d(2) [OF \<open>0 < x\<close>] p have "float8_numeric x \<le> 100" by linarith
      moreover from d(5) p \<open>0 < x\<close> have "x < 100" by linarith
      ultimately show ?thesis by simp
    qed
  qed
qed

lemma hours_rejected:
  "(\<exists>e. hours_in hours = Inl e) \<or> (\<exists>h. hours_in hours = Inr h \<and> \<not> hours_check h) \<longleftrightarrow>
     hours = Infinity \<or> hours = NegInfinity
     \<or> (\<exists>x. hours = Finite x
            \<and> (x \<le> - (1 / 200) + 1 / 200000000000000000
                \<or> 199999 / 200 - 1 / 2000000000000 \<le> x))"
proof (cases hours)
  case (Finite x)
  have "(\<exists>e. hours_in hours = Inl e) \<or> (\<exists>h. hours_in hours = Inr h \<and> \<not> hours_check h) \<longleftrightarrow>
      (\<exists>e. numeric_5_2 (float8_numeric x) = Inl e)
      \<or> (\<exists>h. numeric_5_2 (float8_numeric x) = Inr h \<and> \<not> 0 \<le> h)"
    by (cases "numeric_5_2 (float8_numeric x)") (simp_all add: Finite hours_in_def hours_check_def)
  then show ?thesis
    unfolding numeric_5_2_rejects [symmetric] float8_numeric_low float8_numeric_high
    by (simp add: Finite)
qed (simp_all add: hours_in_def hours_check_def)

section \<open>Approval and rejection\<close>

text \<open>
  Claim C5.  Approving and rejecting never fail and look at no status: row by row, an entry
  with the given id comes out with status \<open>approved\<close> (after approve) or \<open>draft\<close> (after
  reject) and is otherwise the same record, whatever its status was, and an entry with
  another id comes out as it was.  The tables of people and projects are not touched.
\<close>
theorem approve_reject_ungated:
  "fst (approvals_approve entry_id s) = None \<and> fst (approvals_reject entry_id s) = None
   \<and> length (v2_time_entries (snd (approvals_approve entry_id s))) = length (v2_time_entries s)
   \<and> length (v2_time_entries (snd (approvals_reject entry_id s))) = length (v2_time_entries s)
   \<and> (\<forall>i < length (v2_time_entries s).
        (te_id (v2_time_entries s ! i) = entry_id \<longrightarrow>
           v2_time_entries (snd (approvals_approve entry_id s)) ! i
             = (v2_time_entries s ! i)\<lparr>te_status := ''approved''\<rparr>
         \<and> v2_time_entries (snd (approvals_reject entry_id s)) ! i
             = (v2_time_entries s ! i)\<lparr>te_status := ''draft''\<rparr>)
      \<and> (te_id (v2_time_entries s ! i) \<noteq> entry_id \<longrightarrow>
           v2_time_entries (snd (approvals_approve entry_id s)) ! i = v2_time_entries s ! i
         \<and> v2_time_entries (snd (approvals_reject entry_id s)) ! i = v2_time_entries s ! i))
   \<and> v2_people (snd (approvals_approve entry_id s)) = v2_people s
   \<and> v2_projects (snd (approvals_approve entry_id s)) = v2_projects s
   \<and> v2_people (snd (approvals_reject entry_id s)) = v2_people s
   \<and> v2_projects (snd (approvals_reject entry_id s)) = v2_projects s"
  by (simp add: approvals_approve_def approvals_reject_def sql_update_def)

theorem approve_reject_ungated_witness:
  "te_status (v2_time_entries db_draft ! 0) = ''draft''
   \<and> te_status (v2_time_entries (snd (approvals_approve 1 db_draft)) ! 0) = ''approved''
   \<and> te_status (v2_time_entries db_mixed ! 0) = ''approved''
   \<and> te_status (v2_time_entries (snd (approvals_reject 1 db_mixed)) ! 0) = ''draft''
   \<and> v2_time_entries (snd (approvals_reject 1 db_mixed)) ! 1 = v2_time_entries db_mixed ! 1"
proof -
  have a: "0 < length (v2_time_entries db_draft)" "te_id (v2_time_entries db_draft ! 0) = 1"
    by (simp_all add: db_draft_def ensure_v2_schema_def)
  have b: "0 < length (v2_time_entries db_mixed)" "te_id (v2_time_entries db_mixed ! 0) = 1"
    "1 < length (v2_time_entries db_mixed)" "te_id (v2_time_entries db_mixed ! 1) \<noteq> 1"
    by (simp_all add: db_mixed_def ensure_v2_schema_def)
  from approve_reject_ungated [of 1 db_draft] a
  have 1: "v2_time_entries (snd (approvals_approve 1 db_draft)) ! 0
             = (v2_time_entries db_draft ! 0)\<lparr>te_status := ''approved''\<rparr>" by blast
  from approve_reject_ungated [of 1 db_mixed] b
  have 2: "v2_time_entries (snd (approvals_reject 1 db_mixed)) ! 0
             = (v2_time_entries db_mixed ! 0)\<lparr>te_status := ''draft''\<rparr>"
    and 3: "v2_time_entries (snd (approvals_reject 1 db_mixed)) ! 1 = v2_time_entries db_mixed ! 1"
    by blast+
  show ?thesis unfolding 1 2 3 by (simp add: db_draft_def db_mixed_def ensure_v2_schema_def)
qed

section \<open>Operations on an id that no entry has\<close>

text \<open>
  Claim C9.  When no time entry has the given id, deleting, approving and rejecting raise
  nothing and return the database as it was.  Deleting the same id twice gives what deleting
  it once gives, for every id.
\<close>
theorem missing_entry_noop:
  "(entry_id \<notin> set (map te_id (v2_time_entries s)) \<longrightarrow>
      time_delete entry_id s = (None, s) \<and> approvals_approve entry_id s = (None, s)
      \<and> approvals_reject entry_id s = (None, s))
   \<and> time_delete entry_id (snd (time_delete entry_id s)) = time_delete entry_id s"
proof -
  have "time_delete entry_id (snd (time_delete entry_id s)) = time_delete entry_id s"
    by (simp add: time_delete_def sql_delete_def)
  moreover have "time_delete entry_id s = (None, s) \<and> approvals_approve entry_id s = (None, s)
      \<and> approvals_reject entry_id s = (None, s)"
    if "entry_id \<notin> set (map te_id (v2_time_entries s))"
  proof -
    from that have n: "\<forall>r\<in>set (v2_time_entries s). \<not> te_id r = entry_id" by auto
    show ?thesis
      by (simp add: time_delete_def approvals_approve_def approvals_reject_def
          sql_update_none [OF n] sql_delete_none [OF n])
  qed
  ultimately show ?thesis by blast
qed

theorem missing_entry_noop_witness:
  "7 \<notin> set (map te_id (v2_time_entries db_mixed))
   \<and> time_delete 7 db_mixed = (None, db_mixed)
   \<and> approvals_approve 7 db_mixed = (None, db_mixed)
   \<and> approvals_reject 7 db_mixed = (None, db_mixed)
   \<and> time_delete 1 (snd (time_delete 1 db_mixed)) = time_delete 1 db_mixed"
proof -
  have h: "7 \<notin> set (map te_id (v2_time_entries db_mixed))"
    by (simp add: db_mixed_def ensure_v2_schema_def)
  from missing_entry_noop [of 7 db_mixed] missing_entry_noop [of 1 db_mixed] h
  show ?thesis by blast
qed

section \<open>Submitting a week twice\<close>

text \<open>
  Claim C6.  Submitting the same week of the same person a second time, right after the
  first, returns the same outcome and the same database as the first call did: on a week
  that \<^verbatim>\<open>iso_week_dates\<close> rejects both calls raise and change nothing, and otherwise the
  second call finds no draft entry left in the range.
\<close>
theorem submit_week_idempotent:
  "time_submit_week person_id year week (snd (time_submit_week person_id year week s))
     = time_submit_week person_id year week s"
proof (cases "iso_week_dates year week")
  case (Inl e)
  then show ?thesis by (simp add: time_submit_week_def)
next
  case (Inr days)
  then show ?thesis
    by (simp add: time_submit_week_def Let_def sql_update_idem)
qed

section \<open>The status column\<close>

text \<open>
  Claim C8.  In every state that the five workflow handlers (add, delete, submit week,
  approve, reject) reach from the freshly created schema, whatever their arguments and
  whether they fail or not, the status of every time entry is \<open>draft\<close>, \<open>submitted\<close> or
  \<open>approved\<close>.
\<close>
theorem status_enumerated:
  "reachable s \<Longrightarrow>
     \<forall>e\<in>set (v2_time_entries s). te_status e \<in> {''draft'', ''submitted'', ''approved''}"
proof (induction rule: reachable.induct)
  case reach_init
  show ?case by (simp add: ensure_v2_schema_def)
next
  case (reach_add s person_id work_date project_id hours nts)
  then show ?case
    by (auto simp: time_add_def Let_def split: if_splits option.splits sum.splits)
next
  case (reach_delete s entry_id)
  then show ?case by (auto simp: time_delete_def sql_delete_def)
next
  case (reach_submit s person_id year week)
  show ?case
  proof (cases "iso_week_dates year week")
    case (Inl e)
    with reach_submit show ?thesis by (simp add: time_submit_week_def)
  next
    case (Inr days)
    then show ?thesis
      using sql_update_status [OF reach_submit.IH, of "''submitted''"]
      by (simp add: time_submit_week_def Let_def)
  qed
next
  case (reach_approve s entry_id)
  then show ?case
    using sql_update_status [OF reach_approve.IH, of "''approved''"]
    by (simp add: approvals_approve_def)
next
  case (reach_reject s entry_id)
  then show ?case
    using sql_update_status [OF reach_reject.IH, of "''draft''"]
    by (simp add: approvals_reject_def)
qed

theorem status_enumerated_witness:
  "reachable db_draft
   \<and> list_all (\<lambda>e. te_status e \<in> {''draft'', ''submitted'', ''approved''})
        (v2_time_entries db_draft)"
proof -
  have "time_add 1 (Inr 738887) None (Finite 8) None ensure_v2_schema = (None, db_draft)"
    by code_simp
  then have r: "reachable db_draft"
    using reach_add [OF reach_init, of 1 "Inr 738887" None "Finite 8" None] by simp
  from status_enumerated [OF r] r show ?thesis by (simp add: list_all_iff)
qed

section \<open>The week calculator\<close>

text \<open>
  Claim C7.  A week number outside \<open>1 .. iso_weeks_in_year year\<close> makes \<^verbatim>\<open>iso_week_dates\<close>
  raise \<^verbatim>\<open>ValueError\<close>, the exception Python has for the specification's
  \<open>InvalidWeek\<close>, for every year; the message is \<open>Invalid week\<close> whenever the year itself
  is one that \<^verbatim>\<open>date\<close> supports.  No list of dates is returned.
\<close>
theorem invalid_week_rejected:
  assumes "\<not> (1 \<le> week \<and> week \<le> iso_weeks_in_year year)"
  shows "(\<exists>msg. iso_week_dates year week = Inl (ValueError msg))
         \<and> (1 \<le> year \<and> year \<le> 9999 \<longrightarrow>
              iso_week_dates year week = Inl (ValueError ''Invalid week''))"
proof (cases "1 \<le> year \<and> year \<le> 9999")
  case True
  then show ?thesis using iso_week_dates_week_error [of year week] assms by simp
next
  case False
  then show ?thesis using iso_week_dates_year_error [of year week] by simp
qed

theorem invalid_week_rejected_witness:
  "\<not> (1 \<le> (53::int) \<and> 53 \<le> iso_weeks_in_year 2021)
   \<and> iso_week_dates 2021 53 = Inl (ValueError ''Invalid week'')
   \<and> \<not> (1 \<le> (0::int) \<and> 0 \<le> iso_weeks_in_year 2020)
   \<and> iso_week_dates 2020 0 = Inl (ValueError ''Invalid week'')"
proof -
  have a: "\<not> (1 \<le> (53::int) \<and> 53 \<le> iso_weeks_in_year 2021)" by (simp add: iso_weeks_2021)
  have b: "\<not> (1 \<le> (0::int) \<and> 0 \<le> iso_weeks_in_year 2020)" by simp
  from invalid_week_rejected [OF a] invalid_week_rejected [OF b] a b show ?thesis by simp
qed

text \<open>
  Claim C1, as the code has it.  For every year from 1 to 9999 and every week from 1 to the
  number of ISO weeks of that year, except week 52 of year 9999, \<^verbatim>\<open>iso_week_dates\<close>
  returns seven dates.  Each of them is a date of the calendar (its year, month and day are
  accepted by the constructor of \<^verbatim>\<open>date\<close>, and it is the date that
  \<^verbatim>\<open>fromordinal\<close> gives for its day number); their day numbers are consecutive, so
  each is the day after the one before; the first is a Monday, the fourth is the Thursday
  that lies \<open>week - 1\<close> weeks after the first Thursday of the year and lies in that
  calendar year, and the first date is not after the last in the order of \<^verbatim>\<open>date\<close>.
  Week 1 of 2024 is 2024-01-01 to 2024-01-07.
\<close>
theorem week_dates_monday_first:
  assumes "1 \<le> year" "year \<le> 9999" "1 \<le> week" "week \<le> iso_weeks_in_year year"
    "\<not> (year = 9999 \<and> week = 52)"
  shows "\<exists>days. iso_week_dates year week = Inr days \<and> length days = 7
     \<and> (\<forall>d\<in>set days. date_new (d_year d) (d_month d) (d_day d) = Inr d
           \<and> fromordinal (toordinal d) = Inr d)
     \<and> map toordinal days = map (\<lambda>i. toordinal (days ! 0) + i) [0, 1, 2, 3, 4, 5, 6]
     \<and> weekday (days ! 0) = 0
     \<and> toordinal (days ! 3) = first_thursday year + 7 * (week - 1)
     \<and> d_year (days ! 3) = year
     \<and> date_le (days ! 0) (days ! 6)
     \<and> iso_week_dates 2024 1 =
         Inr [\<lparr>d_year = 2024, d_month = 1, d_day = 1\<rparr>, \<lparr>d_year = 2024, d_month = 1, d_day = 2\<rparr>,
              \<lparr>d_year = 2024, d_month = 1, d_day = 3\<rparr>, \<lparr>d_year = 2024, d_month = 1, d_day = 4\<rparr>,
              \<lparr>d_year = 2024, d_month = 1, d_day = 5\<rparr>, \<lparr>d_year = 2024, d_month = 1, d_day = 6\<rparr>,
              \<lparr>d_year = 2024, d_month = 1, d_day = 7\<rparr>]"
proof -
  from iso_week_dates_ok [OF assms] obtain days where d: "iso_week_dates year week = Inr days"
    by blast
  define m0 where "m0 = isoweek1monday year + 7 * (week - 1)"
  note s = iso_week_dates_Inr [OF d, folded m0_def]
  from s(1) obtain a0 a1 a2 a3 a4 a5 a6 where days: "days = [a0, a1, a2, a3, a4, a5, a6]"
    by (auto simp: length_Suc_conv eval_nat_numeral)
  from s(2) have t: "toordinal a0 = m0" "toordinal a3 = m0 + 3" "toordinal a6 = m0 + 6"
    by (simp_all add: days)
  from s(3) have f: "fromordinal m0 = Inr a0" "fromordinal (m0 + 3) = Inr a3"
    "fromordinal (m0 + 6) = Inr a6" by (simp_all add: days)
  note v = f [THEN fromordinal_Inr(2)]
  have monday: "weekday a0 = 0"
    using first_thursday_char [of year]
    by (simp add: weekday_def t m0_def isoweek1monday_thursday algebra_simps) presburger
  have thu: "toordinal a3 = first_thursday year + 7 * (week - 1)"
    by (simp add: t m0_def isoweek1monday_thursday)
  have "days_before_year year < toordinal a3"
    using first_thursday_char [of year] assms(3) by (simp add: thu ymd2ord_jan1)
  moreover have "toordinal a3 \<le> days_before_year (year + 1)"
    using first_thursday_char [of "year + 1"] first_thursday_step [of year] assms(4)
    by (simp add: thu ymd2ord_jan1)
  ultimately have yr: "d_year a3 = year" using year_of_ordinal [OF v(2)] by simp
  have le: "date_le a0 a6" using date_le_iff [OF v(1) v(3)] by (simp add: t)
  have valid: "\<forall>d\<in>set days. date_new (d_year d) (d_month d) (d_day d) = Inr d
      \<and> fromordinal (toordinal d) = Inr d"
    using week_ordinals(4) [OF d] fromordinal_Inr(2) by blast
  have rest: "length days = 7
     \<and> map toordinal days = map (\<lambda>i. toordinal (days ! 0) + i) [0, 1, 2, 3, 4, 5, 6]
     \<and> weekday (days ! 0) = 0
     \<and> toordinal (days ! 3) = first_thursday year + 7 * (week - 1)
     \<and> d_year (days ! 3) = year
     \<and> date_le (days ! 0) (days ! 6)"
    using s(1,2) monday thu yr le by (simp add: days)
  from d valid rest iso_week_dates_2024_1 show ?thesis by blast
qed

theorem week_dates_monday_first_witness:
  "iso_week_dates 2024 1 =
     Inr [\<lparr>d_year = 2024, d_month = 1, d_day = 1\<rparr>, \<lparr>d_year = 2024, d_month = 1, d_day = 2\<rparr>,
          \<lparr>d_year = 2024, d_month = 1, d_day = 3\<rparr>, \<lparr>d_year = 2024, d_month = 1, d_day = 4\<rparr>,
          \<lparr>d_year = 2024, d_month = 1, d_day = 5\<rparr>, \<lparr>d_year = 2024, d_month = 1, d_day = 6\<rparr>,
          \<lparr>d_year = 2024, d_month = 1, d_day = 7\<rparr>]
   \<and> weekday \<lparr>d_year = 2024, d_month = 1, d_day = 1\<rparr> = 0
   \<and> toordinal \<lparr>d_year = 2024, d_month = 1, d_day = 4\<rparr> = first_thursday 2024
   \<and> date_le \<lparr>d_year = 2024, d_month = 1, d_day = 1\<rparr> \<lparr>d_year = 2024, d_month = 1, d_day = 7\<rparr>
   \<and> date_new 2024 1 7 = Inr \<lparr>d_year = 2024, d_month = 1, d_day = 7\<rparr>
   \<and> fromordinal (toordinal \<lparr>d_year = 2024, d_month = 1, d_day = 7\<rparr>)
       = Inr \<lparr>d_year = 2024, d_month = 1, d_day = 7\<rparr>"
proof -
  have h: "(1::int) \<le> 2024" "(2024::int) \<le> 9999" "(1::int) \<le> 1" "1 \<le> iso_weeks_in_year 2024"
    "\<not> ((2024::int) = 9999 \<and> (1::int) = 52)"
    by (simp_all add: iso_weeks_2024)
  from week_dates_monday_first [OF h] obtain days where
    "iso_week_dates 2024 1 = Inr days" "weekday (days ! 0) = 0"
    "toordinal (days ! 3) = first_thursday 2024 + 7 * (1 - 1)" "date_le (days ! 0) (days ! 6)"
    "\<forall>d\<in>set days. date_new (d_year d) (d_month d) (d_day d) = Inr d
       \<and> fromordinal (toordinal d) = Inr d"
    by blast
  then show ?thesis by (auto simp: iso_week_dates_2024_1)
qed

theorem week_dates_last_week_counterexample:
  "iso_weeks_in_year 9999 = 52
   \<and> iso_week_dates 9999 52 = Inl (OverflowError ''result out of range'')"
  by (simp add: iso_weeks_9999 iso_week_dates_9999_52)

section \<open>Submitting a week\<close>

text \<open>
  Claim C2.  When \<^verbatim>\<open>iso_week_dates\<close> raises, submitting raises the same exception and
  leaves the database as it was.  When it returns the seven days, submitting raises nothing,
  keeps the tables of people and projects and the number of time entries, and row by row an
  entry comes out with status \<open>submitted\<close> and otherwise the same when it is of the given
  person, dated on one of the seven days and in status \<open>draft\<close>; every other entry comes
  out as it was.
\<close>
theorem submit_week_transitions:
  "(\<forall>e. iso_week_dates year week = Inl e \<longrightarrow>
        time_submit_week person_id year week s = (Some e, s))
   \<and> (\<forall>days. iso_week_dates year week = Inr days \<longrightarrow>
        fst (time_submit_week person_id year week s) = None
        \<and> v2_people (snd (time_submit_week person_id year week s)) = v2_people s
        \<and> v2_projects (snd (time_submit_week person_id year week s)) = v2_projects s
        \<and> length (v2_time_entries (snd (time_submit_week person_id year week s)))
            = length (v2_time_entries s)
        \<and> (\<forall>i < length (v2_time_entries s).
             v2_time_entries (snd (time_submit_week person_id year week s)) ! i
             = (if te_person_id (v2_time_entries s ! i) = person_id
                   \<and> te_work_date (v2_time_entries s ! i) \<in> toordinal ` set days
                   \<and> te_status (v2_time_entries s ! i) = ''draft''
                then (v2_time_entries s ! i)\<lparr>te_status := ''submitted''\<rparr>
                else v2_time_entries s ! i)))"
proof (intro conjI allI impI)
  fix e assume "iso_week_dates year week = Inl e"
  then show "time_submit_week person_id year week s = (Some e, s)"
    by (simp add: time_submit_week_def)
next
  fix days assume d: "iso_week_dates year week = Inr days"
  note w = week_ordinals(2) [OF d]
  have r: "toordinal (hd days) \<le> n \<and> n \<le> toordinal (last days) \<longleftrightarrow> n \<in> toordinal ` set days"
    for n unfolding w by simp
  show "fst (time_submit_week person_id year week s) = None"
    by (simp add: time_submit_week_def d Let_def)
  show "v2_people (snd (time_submit_week person_id year week s)) = v2_people s"
    by (simp add: time_submit_week_def d Let_def)
  show "v2_projects (snd (time_submit_week person_id year week s)) = v2_projects s"
    by (simp add: time_submit_week_def d Let_def)
  show "length (v2_time_entries (snd (time_submit_week person_id year week s)))
            = length (v2_time_entries s)"
    by (simp add: time_submit_week_def d Let_def sql_update_def)
  fix i assume "i < length (v2_time_entries s)"
  then show "v2_time_entries (snd (time_submit_week person_id year week s)) ! i
             = (if te_person_id (v2_time_entries s ! i) = person_id
                   \<and> te_work_date (v2_time_entries s ! i) \<in> toordinal ` set days
                   \<and> te_status (v2_time_entries s ! i) = ''draft''
                then (v2_time_entries s ! i)\<lparr>te_status := ''submitted''\<rparr>
                else v2_time_entries s ! i)"
    using r [of "te_work_date (v2_time_entries s ! i)"]
    by (auto simp: time_submit_week_def d Let_def sql_update_def)
qed

theorem submit_week_transitions_witness:
  "te_status (v2_time_entries db_draft ! 0) = ''draft''
   \<and> v2_time_entries (snd (time_submit_week 1 2024 1 db_draft)) ! 0
       = (v2_time_entries db_draft ! 0)\<lparr>te_status := ''submitted''\<rparr>
   \<and> v2_time_entries (snd (time_submit_week 1 2024 1 db_mixed)) ! 0
       = v2_time_entries db_mixed ! 0
   \<and> v2_time_entries (snd (time_submit_week 2 2024 1 db_draft)) ! 0
       = v2_time_entries db_draft ! 0
   \<and> v2_time_entries (snd (time_submit_week 1 2024 2 db_draft)) ! 0
       = v2_time_entries db_draft ! 0
   \<and> time_submit_week 1 2021 53 db_draft = (Some (ValueError ''Invalid week''), db_draft)"
proof -
  have w2: "iso_week_dates 2024 2 =
     Inr [\<lparr>d_year = 2024, d_month = 1, d_day = 8\<rparr>, \<lparr>d_year = 2024, d_month = 1, d_day = 9\<rparr>,
          \<lparr>d_year = 2024, d_month = 1, d_day = 10\<rparr>, \<lparr>d_year = 2024, d_month = 1, d_day = 11\<rparr>,
          \<lparr>d_year = 2024, d_month = 1, d_day = 12\<rparr>, \<lparr>d_year = 2024, d_month = 1, d_day = 13\<rparr>,
          \<lparr>d_year = 2024, d_month = 1, d_day = 14\<rparr>]"
    by code_simp
  have e: "iso_week_dates 2021 53 = Inl (ValueError ''Invalid week'')"
    using iso_week_dates_week_error [of 2021 53] by (simp add: iso_weeks_2021)
  have o: "toordinal \<lparr>d_year = 2024, d_month = 1, d_day = k\<rparr> = 738885 + k" for k
    by (simp add: toordinal_def ymd2ord_def days_before_year_def days_before_month_def
        DAYS_BEFORE_MONTH_def)
  have l: "0 < length (v2_time_entries db_draft)" "0 < length (v2_time_entries db_mixed)"
    by (simp_all add: db_draft_def db_mixed_def ensure_v2_schema_def)
  from submit_week_transitions [of 2024 1 1 db_draft] iso_week_dates_2024_1 l(1)
  have 1: "v2_time_entries (snd (time_submit_week 1 2024 1 db_draft)) ! 0
       = (v2_time_entries db_draft ! 0)\<lparr>te_status := ''submitted''\<rparr>"
    by (simp add: o db_draft_def ensure_v2_schema_def)
  from submit_week_transitions [of 2024 1 1 db_mixed] iso_week_dates_2024_1 l(2)
  have 2: "v2_time_entries (snd (time_submit_week 1 2024 1 db_mixed)) ! 0
       = v2_time_entries db_mixed ! 0"
    by (simp add: o db_mixed_def ensure_v2_schema_def)
  from submit_week_transitions [of 2024 1 2 db_draft] iso_week_dates_2024_1 l(1)
  have 3: "v2_time_entries (snd (time_submit_week 2 2024 1 db_draft)) ! 0
       = v2_time_entries db_draft ! 0"
    by (simp add: o db_draft_def ensure_v2_schema_def)
  from submit_week_transitions [of 2024 2 1 db_draft] w2 l(1)
  have 4: "v2_time_entries (snd (time_submit_week 1 2024 2 db_draft)) ! 0
       = v2_time_entries db_draft ! 0"
    by (simp add: o db_draft_def ensure_v2_schema_def)
  from submit_week_transitions [of 2021 53 1 db_draft] e
  have 5: "time_submit_week 1 2021 53 db_draft = (Some (ValueError ''Invalid week''), db_draft)"
    by simp
  show ?thesis unfolding 1 2 3 4 5 by (simp add: db_draft_def ensure_v2_schema_def)
qed

section \<open>The week summary\<close>




section \<open>The default person\<close>

text \<open>
  Claim C10.  When the week view is requested without a person (or with person 0, which
  Python takes for missing), the person is chosen by \<^verbatim>\<open>pick_default_person_id\<close>: with
  no people in the database the request is answered with the error page for
  \<^verbatim>\<open>RuntimeError("No v2_people in DB")\<close>, whatever the week; with people, the choice is
  the smallest id among them, and the week view is rendered for that person whenever
  \<^verbatim>\<open>iso_week_dates\<close> accepts the week.
\<close>
theorem default_person_smallest_id:
  assumes "falsy person_id"
  shows "(v2_people s = [] \<longrightarrow>
            pick_default_person_id s = Inl (RuntimeError ''No v2_people in DB'')
            \<and> my_week today year week person_id s = Inl (RuntimeError ''No v2_people in DB''))
     \<and> (v2_people s \<noteq> [] \<longrightarrow>
            pick_default_person_id s = Inr (Min (set (map p_id (v2_people s))))
            \<and> (\<forall>days. iso_week_dates (py_or year (fst today)) (py_or week (snd today))
                         = Inr days \<longrightarrow>
                 (\<exists>c. my_week today year week person_id s = Inr c
                      \<and> ctx_person_id c = Min (set (map p_id (v2_people s))))))"
proof (intro conjI impI allI)
  assume e: "v2_people s = []"
  then show pd: "pick_default_person_id s = Inl (RuntimeError ''No v2_people in DB'')"
    by (simp add: pick_default_person_id_eq)
  show "my_week today year week person_id s = Inl (RuntimeError ''No v2_people in DB'')"
    by (rule my_week_person_error) (simp add: assms pd)
next
  assume n: "v2_people s \<noteq> []"
  then show pd: "pick_default_person_id s = Inr (Min (set (map p_id (v2_people s))))"
    by (simp add: pick_default_person_id_eq)
  fix days
  assume d: "iso_week_dates (py_or year (fst today)) (py_or week (snd today)) = Inr days"
  have p: "(if falsy person_id then pick_default_person_id s else Inr (the person_id))
             = Inr (Min (set (map p_id (v2_people s))))"
    by (simp add: assms pd)
  from my_week_core [OF p d]
  show "\<exists>c. my_week today year week person_id s = Inr c
          \<and> ctx_person_id c = Min (set (map p_id (v2_people s)))" by blast
qed

theorem default_person_smallest_id_witness:
  "falsy None
   \<and> my_week (2024, 1) None None None db_no_people = Inl (RuntimeError ''No v2_people in DB'')
   \<and> pick_default_person_id db_two_people = Inr 3
   \<and> (\<exists>c. my_week (2024, 1) None None None db_two_people = Inr c \<and> ctx_person_id c = 3)"
proof -
  have f: "falsy None" by (simp add: falsy_def)
  have e: "v2_people db_no_people = []" by (simp add: db_no_people_def)
  have n: "v2_people db_two_people \<noteq> []"
    and m: "Min (set (map p_id (v2_people db_two_people))) = 3"
    by (simp_all add: db_two_people_def ensure_v2_schema_def)
  have d: "iso_week_dates (py_or None (fst (2024, 1))) (py_or None (snd (2024, 1)))
      = Inr [\<lparr>d_year = 2024, d_month = 1, d_day = 1\<rparr>, \<lparr>d_year = 2024, d_month = 1, d_day = 2\<rparr>,
          \<lparr>d_year = 2024, d_month = 1, d_day = 3\<rparr>, \<lparr>d_year = 2024, d_month = 1, d_day = 4\<rparr>,
          \<lparr>d_year = 2024, d_month = 1, d_day = 5\<rparr>, \<lparr>d_year = 2024, d_month = 1, d_day = 6\<rparr>,
          \<lparr>d_year = 2024, d_month = 1, d_day = 7\<rparr>]"
    by (simp add: py_or_def iso_week_dates_2024_1)
  from default_person_smallest_id [OF f, of db_no_people "(2024, 1)" None None] e
  have 1: "my_week (2024, 1) None None None db_no_people
             = Inl (RuntimeError ''No v2_people in DB'')" by blast
  from default_person_smallest_id [OF f, of db_two_people "(2024, 1)" None None] n d
  have 2: "pick_default_person_id db_two_people = Inr 3"
    and 3: "\<exists>c. my_week (2024, 1) None None None db_two_people = Inr c \<and> ctx_person_id c = 3"
    unfolding m by blast+
  from f 1 2 3 show ?thesis by blast
qed

section \<open>Adding an entry\<close>

text \<open>
  Claim C4, as the code has it.  \<^verbatim>\<open>POST /time/add\<close> raises, and leaves the three
  tables as they were, exactly when
  \<^item> the notes contain a NUL character, or the database cannot read \<^verbatim>\<open>work_date\<close> as a
    date, or the person id or the project id is beyond \<^verbatim>\<open>BIGINT\<close>;
  \<^item> the hours are an infinity, or at most \<open>-0.004999999999999995\<close>, or at least
    \<open>999.9949999999995\<close>: the database reads the float with 15 significant digits, stores
    it rounded to two decimals, and checks after that, so it refuses what it reads as
    \<open>-0.005\<close> or less (stored below 0) and as \<open>999.995\<close> or more (beyond
    \<^verbatim>\<open>NUMERIC(5,2)\<close>);
  \<^item> the next id of the sequence is the id of an entry (which does not happen as long as
    all ids are drawn from the sequence);
  \<^item> no person has the given id, or a project id is given that no project has.

  Otherwise it raises nothing and appends one entry in status \<open>draft\<close>, with the next id
  of the sequence and the hours as the column takes them (rounded to two decimals, NaN for
  NaN), and changes nothing else.  The exceptions are those of the driver and the database;
  the handler catches none and defines none.
\<close>
theorem add_entry_checked:
  "if (\<exists>t. notes = Some t \<and> CHR 0x00 \<in> set t)
      \<or> (\<exists>e. work_date = Inl e)
      \<or> \<not> int8 person_id \<or> (\<exists>p. project_id = Some p \<and> \<not> int8 p)
      \<or> (hours = Infinity \<or> hours = NegInfinity
          \<or> (\<exists>x. hours = Finite x
                 \<and> (x \<le> - (1 / 200) + 1 / 200000000000000000
                     \<or> 199999 / 200 - 1 / 2000000000000 \<le> x)))
      \<or> v2_time_entries_id_seq s + 1 \<in> set (map te_id (v2_time_entries s))
      \<or> person_id \<notin> set (map p_id (v2_people s))
      \<or> (\<exists>p. project_id = Some p \<and> p \<notin> set (map pr_id (v2_projects s)))
   then fst (time_add person_id work_date project_id hours notes s) \<noteq> None
      \<and> v2_time_entries (snd (time_add person_id work_date project_id hours notes s))
          = v2_time_entries s
      \<and> v2_people (snd (time_add person_id work_date project_id hours notes s)) = v2_people s
      \<and> v2_projects (snd (time_add person_id work_date project_id hours notes s))
          = v2_projects s
   else fst (time_add person_id work_date project_id hours notes s) = None
      \<and> (\<exists>wd h. work_date = Inr wd \<and> hours_in hours = Inr h \<and> hours_check h
           \<and> v2_time_entries (snd (time_add person_id work_date project_id hours notes s))
               = v2_time_entries s @
                   [\<lparr>te_id = v2_time_entries_id_seq s + 1, te_person_id = person_id,
                     te_project_id = project_id, te_work_date = wd, te_hours = h,
                     te_notes = notes, te_status = ''draft''\<rparr>])
      \<and> v2_people (snd (time_add person_id work_date project_id hours notes s)) = v2_people s
      \<and> v2_projects (snd (time_add person_id work_date project_id hours notes s))
          = v2_projects s"
  unfolding hours_rejected [symmetric] time_add_fails_iff [symmetric]
  using time_add_unchanged [of person_id work_date project_id hours "notes" s]
    time_add_None [of person_id work_date project_id hours "notes" s]
  by (simp only: split: if_split) blast

theorem add_entry_checked_witness:
  "fst (time_add 1 (Inr 738887) (Some 1) (Finite 8) None ensure_v2_schema) = None
   \<and> v2_time_entries (snd (time_add 1 (Inr 738887) (Some 1) (Finite 8) None ensure_v2_schema))
       = [\<lparr>te_id = 1, te_person_id = 1, te_project_id = Some 1, te_work_date = 738887,
           te_hours = Num 8, te_notes = None, te_status = ''draft''\<rparr>]
   \<and> fst (time_add 2 (Inr 738887) None (Finite 8) None ensure_v2_schema) \<noteq> None
   \<and> v2_time_entries (snd (time_add 2 (Inr 738887) None (Finite 8) None ensure_v2_schema)) = []
   \<and> fst (time_add 1 (Inr 738887) None (Finite (- 1)) None ensure_v2_schema) \<noteq> None
   \<and> v2_time_entries (snd (time_add 1 (Inr 738887) None (Finite (- 1)) None ensure_v2_schema))
       = []
   \<and> fst (time_add 1 (Inr 738887) None (Finite (- (2882303761517117 / 576460752303423488))) None
         ensure_v2_schema) \<noteq> None
   \<and> fst (time_add 1 (Inr 738887) None NaN None ensure_v2_schema) = None
   \<and> v2_time_entries (snd (time_add 1 (Inr 738887) None NaN None ensure_v2_schema))
       = [\<lparr>te_id = 1, te_person_id = 1, te_project_id = None, te_work_date = 738887,
           te_hours = NumNaN, te_notes = None, te_status = ''draft''\<rparr>]"
proof -
  have h: "hours_in (Finite 8) = Inr (Num 8)" "hours_in NaN = Inr NumNaN" by code_simp+
  have i: "int8 1" "int8 2" by (simp_all add: int8_def)
  from add_entry_checked [of None "Inr 738887" 1 "Some 1" "Finite 8" ensure_v2_schema]
  have 1: "fst (time_add 1 (Inr 738887) (Some 1) (Finite 8) None ensure_v2_schema) = None"
    and 2: "v2_time_entries (snd (time_add 1 (Inr 738887) (Some 1) (Finite 8) None
              ensure_v2_schema))
       = [\<lparr>te_id = 1, te_person_id = 1, te_project_id = Some 1, te_work_date = 738887,
           te_hours = Num 8, te_notes = None, te_status = ''draft''\<rparr>]"
    by (simp_all add: h i ensure_v2_schema_def)
  from add_entry_checked [of None "Inr 738887" 2 None "Finite 8" ensure_v2_schema]
  have 3: "fst (time_add 2 (Inr 738887) None (Finite 8) None ensure_v2_schema) \<noteq> None"
    and 4: "v2_time_entries (snd (time_add 2 (Inr 738887) None (Finite 8) None ensure_v2_schema))
       = []"
    by (simp_all add: h i ensure_v2_schema_def)
  from add_entry_checked [of None "Inr 738887" 1 None "Finite (- 1)" ensure_v2_schema]
  have 5: "fst (time_add 1 (Inr 738887) None (Finite (- 1)) None ensure_v2_schema) \<noteq> None"
    and 6: "v2_time_entries (snd (time_add 1 (Inr 738887) None (Finite (- 1)) None
              ensure_v2_schema)) = []"
    by (simp_all add: h i ensure_v2_schema_def)
  from add_entry_checked [of None "Inr 738887" 1 None
      "Finite (- (2882303761517117 / 576460752303423488))" ensure_v2_schema]
  have 7: "fst (time_add 1 (Inr 738887) None (Finite (- (2882303761517117 / 576460752303423488)))
         None ensure_v2_schema) \<noteq> None"
    by (simp add: h i ensure_v2_schema_def)
  from add_entry_checked [of None "Inr 738887" 1 None NaN ensure_v2_schema]
  have 8: "fst (time_add 1 (Inr 738887) None NaN None ensure_v2_schema) = None"
    and 9: "v2_time_entries (snd (time_add 1 (Inr 738887) None NaN None ensure_v2_schema))
       = [\<lparr>te_id = 1, te_person_id = 1, te_project_id = None, te_work_date = 738887,
           te_hours = NumNaN, te_notes = None, te_status = ''draft''\<rparr>]"
    by (simp_all add: h i ensure_v2_schema_def)
  from 1 2 3 4 5 6 7 8 9 show ?thesis by blast
qed

text \<open>
  The claim fails in both directions.  With 8 hours and the existing person 1, a project id
  that no project has makes the request fail, and so do 1000 hours with no project at all;
  and with \<open>-0.004\<close> hours (the double nearest to it), which is below 0, the entry is
  created, with 0 hours.  The first failure is a \<^verbatim>\<open>ForeignKeyViolation\<close>, the second a
  \<^verbatim>\<open>NumericValueOutOfRange\<close>.
\<close>
theorem add_entry_counterexample:
  "(0::rat) \<le> 8 \<and> 1 \<in> set (map p_id (v2_people ensure_v2_schema))
   \<and> time_add 1 (Inr 738887) (Some 999) (Finite 8) None ensure_v2_schema
       = (Some ForeignKeyViolation, ensure_v2_schema\<lparr>v2_time_entries_id_seq := 1\<rparr>)
   \<and> (0::rat) \<le> 1000
   \<and> time_add 1 (Inr 738887) None (Finite 1000) None ensure_v2_schema
       = (Some NumericValueOutOfRange, ensure_v2_schema)
   \<and> (- (1152921504606847 / 288230376151711744) :: rat) < 0
   \<and> time_add 1 (Inr 738887) None (Finite (- (1152921504606847 / 288230376151711744))) None
         ensure_v2_schema
       = (None,
          ensure_v2_schema
            \<lparr>v2_time_entries :=
               [\<lparr>te_id = 1, te_person_id = 1, te_project_id = None, te_work_date = 738887,
                 te_hours = Num 0, te_notes = None, te_status = ''draft''\<rparr>],
             v2_time_entries_id_seq := 1\<rparr>)"
proof -
  have 1: "time_add 1 (Inr 738887) (Some 999) (Finite 8) None ensure_v2_schema
       = (Some ForeignKeyViolation, ensure_v2_schema\<lparr>v2_time_entries_id_seq := 1\<rparr>)"
    by code_simp
  have 2: "time_add 1 (Inr 738887) None (Finite 1000) None ensure_v2_schema
       = (Some NumericValueOutOfRange, ensure_v2_schema)"
    by code_simp
  have 3: "time_add 1 (Inr 738887) None (Finite (- (1152921504606847 / 288230376151711744))) None
         ensure_v2_schema
       = (None,
          ensure_v2_schema
            \<lparr>v2_time_entries :=
               [\<lparr>te_id = 1, te_person_id = 1, te_project_id = None, te_work_date = 738887,
                 te_hours = Num 0, te_notes = None, te_status = ''draft''\<rparr>],
             v2_time_entries_id_seq := 1\<rparr>)"
    by code_simp
  show ?thesis unfolding 1 2 3 by (simp add: ensure_v2_schema_def)
qed

end
